theory Spec2Isabelle
  imports Complex_Main "HOL-Library.AList"
begin

text \<open>
  A model of \<open>main.py\<close> of \<open>jenkins-bt\<close>: the dependency graph over job aliases, its
  decomposition into phases from a start alias, the exclusion filter, the execution of one
  phase against the Jenkins service, and the driver that runs the phases in order. Mutable
  objects are an explicit store, exceptions are error values, the service is a parameter,
  and the unbounded polling loop has an optional result. Sleeping, logging and the live
  table are left out.
\<close>

section \<open>Data model\<close>

text \<open>The enumeration \<open>BuildStatus\<close> of \<open>main.py\<close>.\<close>

datatype BuildStatus = IN_PROGRESS | SUCCESS | FAILED

text \<open>The exceptions that the modelled code can raise.\<close>

datatype error = AttributeError | KeyError | IOError | JenkinsException

type_synonym aliasname = string

text \<open>
  Class \<open>Node\<close>. Nodes are compared and hashed by \<open>name\<close>, and \<open>build_graph\<close> creates one
  node per alias, so a reference to a node object is modelled by its alias and the object
  graph by a store from aliases to nodes (the dictionary \<open>name_node_mapping\<close>, in insertion
  order). \<open>children\<close> holds references, that is aliases.
\<close>

record Node =
  name :: aliasname
  inbound :: int
  children :: "aliasname list"

type_synonym graph = "(aliasname \<times> Node) list"

section \<open>Aggregating job statuses\<close>

text \<open>
  \<open>resolve_statuses\<close>: Python's \<open>not a and b or c\<close> is \<open>((not a) and b) or c\<close>, and an empty
  list is falsy, so the first test fails for it.
\<close>

definition resolve_statuses :: "string list \<Rightarrow> bool \<Rightarrow> BuildStatus" where
  "resolve_statuses statuses ignore_failed =
     (if statuses \<noteq> [] \<and> count_list statuses ''SUCCESS'' = length statuses then SUCCESS
      else if (\<not> ignore_failed \<and> count_list statuses ''ABORTED'' > 0)
              \<or> count_list statuses ''FAILED'' > 0 then FAILED
      else IN_PROGRESS)"

section \<open>Building the dependency graph\<close>

definition new_node :: "aliasname \<Rightarrow> Node" where
  "new_node a = \<lparr>name = a, inbound = 0, children = []\<rparr>"

text \<open>The first loop of \<open>build_graph\<close>: \<open>setdefault\<close> adds a node only for a new alias.\<close>

fun add_nodes :: "aliasname list \<Rightarrow> graph \<Rightarrow> graph" where
  "add_nodes [] g = g"
| "add_nodes (a # as) g =
     add_nodes as (case map_of g a of None \<Rightarrow> g @ [(a, new_node a)] | Some n \<Rightarrow> g)"

text \<open>
  The second loop: \<open>dep = (src, dst)\<close>, the dependent and its prerequisite. \<open>dict.get\<close>
  yields \<open>None\<close> for an unknown alias, and the attribute access on \<open>None\<close> raises
  \<open>AttributeError\<close>: for \<open>dst\<close> at the \<open>append\<close>, for \<open>src\<close> at the increment. The source node
  is read again after the append, since \<open>src\<close> and \<open>dst\<close> may be the same object.
\<close>

fun add_deps :: "(aliasname \<times> aliasname) list \<Rightarrow> graph \<Rightarrow> error + graph" where
  "add_deps [] g = Inr g"
| "add_deps (dep # deps) g =
     (case map_of g (snd dep) of
        None \<Rightarrow> Inl AttributeError
      | Some dst \<Rightarrow>
          (let g1 = AList.update (snd dep) (dst\<lparr>children := children dst @ [fst dep]\<rparr>) g in
           case map_of g1 (fst dep) of
             None \<Rightarrow> Inl AttributeError
           | Some src \<Rightarrow>
               add_deps deps (AList.update (fst dep) (src\<lparr>inbound := inbound src + 1\<rparr>) g1)))"

text \<open>
  \<open>build_graph\<close>. The dictionary \<open>aliases\<close> (alias to job name) is an association list; only
  its keys are read here.
\<close>

definition build_graph :: "(aliasname \<times> string) list \<Rightarrow> (aliasname \<times> aliasname) list \<Rightarrow> error + graph" where
  "build_graph aliases dependencies = add_deps dependencies (add_nodes (map fst aliases) [])"

text \<open>\<open>graph.get(start_point)\<close>: the reference to the node of that alias, or \<open>None\<close>.\<close>

definition graph_get :: "graph \<Rightarrow> aliasname \<Rightarrow> aliasname option" where
  "graph_get g a = (case map_of g a of None \<Rightarrow> None | Some n \<Rightarrow> Some a)"

section \<open>Layering\<close>

text \<open>The inner loop of \<open>get_topo_sort\<close> over \<open>node.children\<close>.\<close>

fun visit_children :: "aliasname list \<Rightarrow> graph \<Rightarrow> aliasname list \<Rightarrow> error + graph \<times> aliasname list" where
  "visit_children [] g next_queue = Inr (g, next_queue)"
| "visit_children (c # cs) g next_queue =
     (case map_of g c of
        None \<Rightarrow> Inl AttributeError
      | Some child \<Rightarrow>
          (let child' = child\<lparr>inbound := inbound child - 1\<rparr> in
           visit_children cs (AList.update c child' g)
             (if inbound child' = 0 then next_queue @ [c] else next_queue)))"

text \<open>The loop over \<open>current_queue\<close>.\<close>

fun visit_queue :: "aliasname list \<Rightarrow> graph \<Rightarrow> aliasname list \<Rightarrow> error + graph \<times> aliasname list" where
  "visit_queue [] g next_queue = Inr (g, next_queue)"
| "visit_queue (v # vs) g next_queue =
     (case map_of g v of
        None \<Rightarrow> Inl AttributeError
      | Some node \<Rightarrow>
          (case visit_children (children node) g next_queue of
             Inl e \<Rightarrow> Inl e
           | Inr r \<Rightarrow> visit_queue vs (fst r) (snd r)))"

text \<open>The number of nodes whose counter is positive: what the \<open>while\<close> loop uses up.\<close>

definition pos_count :: "graph \<Rightarrow> nat" where
  "pos_count g = length (filter (\<lambda>p. 0 < inbound (snd p)) g)"

lemma pos_count_update:
  "map_of g c = Some n \<Longrightarrow>
   pos_count (AList.update c n' g) + (if 0 < inbound n then 1 else 0)
     = pos_count g + (if 0 < inbound n' then 1 else 0)"
  by (induction g) (auto simp: pos_count_def)

lemma visit_children_measure:
  "visit_children cs g nq = Inr (g', nq') \<Longrightarrow> pos_count g' + length nq' \<le> pos_count g + length nq"
proof (induction cs arbitrary: g nq)
  case Nil
  then show ?case by simp
next
  case (Cons c cs)
  from Cons.prems obtain child where child: "map_of g c = Some child"
    by (cases "map_of g c") simp_all
  let ?child' = "child\<lparr>inbound := inbound child - 1\<rparr>"
  let ?g1 = "AList.update c ?child' g"
  let ?nq1 = "if inbound ?child' = 0 then nq @ [c] else nq"
  from Cons.prems child have "visit_children cs ?g1 ?nq1 = Inr (g', nq')"
    by (simp add: Let_def)
  then have "pos_count g' + length nq' \<le> pos_count ?g1 + length ?nq1"
    by (rule Cons.IH)
  moreover have "pos_count ?g1 + length ?nq1 \<le> pos_count g + length nq"
  proof (cases "inbound child = 1")
    case True
    with pos_count_update [OF child, of ?child'] have "pos_count ?g1 + 1 = pos_count g"
      by simp
    with True show ?thesis by simp
  next
    case False
    with pos_count_update [OF child, of ?child'] have "pos_count ?g1 \<le> pos_count g"
      by (simp split: if_splits)
    with False show ?thesis by simp
  qed
  ultimately show ?case by linarith
qed

lemma visit_queue_measure:
  "visit_queue vs g nq = Inr (g', nq') \<Longrightarrow> pos_count g' + length nq' \<le> pos_count g + length nq"
proof (induction vs arbitrary: g nq)
  case Nil
  then show ?case by simp
next
  case (Cons v vs)
  from Cons.prems obtain node where node: "map_of g v = Some node"
    by (cases "map_of g v") simp_all
  with Cons.prems obtain r where r: "visit_children (children node) g nq = Inr r"
    by (cases "visit_children (children node) g nq") simp_all
  obtain g1 nq1 where r_eq: "r = (g1, nq1)"
    by (cases r)
  from r r_eq have step: "visit_children (children node) g nq = Inr (g1, nq1)"
    by simp
  from Cons.prems node step have rest: "visit_queue vs g1 nq1 = Inr (g', nq')"
    by simp
  from visit_children_measure [OF step] Cons.IH [OF rest] show ?case by linarith
qed

text \<open>
  The \<open>while\<close> loop of \<open>get_topo_sort\<close>: the state is the store, \<open>current_queue\<close> and \<open>layers\<close>.
\<close>

function topo_loop :: "graph \<Rightarrow> aliasname list \<Rightarrow> aliasname list list \<Rightarrow> error + aliasname list list" where
  "topo_loop g current_queue layers =
     (if current_queue = [] then Inr layers
      else (case visit_queue current_queue g [] of
              Inl e \<Rightarrow> Inl e
            | Inr r \<Rightarrow> topo_loop (fst r) (snd r) (layers @ [current_queue])))"
  by pat_completeness auto
termination
proof (relation "measure (\<lambda>(g, q, layers). pos_count g + (if q = [] then 0 else 1))")
  show "wf (measure (\<lambda>(g, q, layers). pos_count g + (if q = [] then 0 else 1)))"
    by simp
next
  fix g :: graph and current_queue :: "aliasname list" and layers :: "aliasname list list" and r
  assume ne: "current_queue \<noteq> []" and r: "visit_queue current_queue g [] = Inr r"
  from r have "pos_count (fst r) + length (snd r) \<le> pos_count g"
    using visit_queue_measure [of current_queue g "[]" "fst r" "snd r"] by simp
  moreover have "(if snd r = [] then 0 else 1) \<le> length (snd r)"
    by (cases "snd r") simp_all
  ultimately show "((fst r, snd r, layers @ [current_queue]), (g, current_queue, layers))
      \<in> measure (\<lambda>(g, q, layers). pos_count g + (if q = [] then 0 else 1))"
    using ne by simp
qed

declare topo_loop.simps [simp del]

text \<open>
  \<open>get_topo_sort\<close>, given the store and the reference passed as \<open>start_node\<close>. For \<open>None\<close> the
  first \<open>node.children\<close> raises.
\<close>

definition get_topo_sort :: "graph \<Rightarrow> aliasname option \<Rightarrow> error + aliasname list list" where
  "get_topo_sort g start_node =
     (case start_node of None \<Rightarrow> Inl AttributeError | Some s \<Rightarrow> topo_loop g [s] [])"

section \<open>The exclusion filter\<close>

text \<open>
  The inner loop of \<open>filter_excluded_nodes\<close>. \<open>nodes_copy\<close> is a Python set, modelled by a
  list without duplicates (the order in which a set is iterated is not specified; no
  property below depends on it). \<open>set.remove\<close> raises \<open>KeyError\<close> for an absent element.
\<close>

fun remove_excluded :: "aliasname list \<Rightarrow> aliasname list \<Rightarrow> aliasname list \<Rightarrow> error + aliasname list" where
  "remove_excluded [] exclude_aliases nodes_copy = Inr nodes_copy"
| "remove_excluded (node # nodes) exclude_aliases nodes_copy =
     (if node \<in> set exclude_aliases
      then (if node \<in> set nodes_copy
            then remove_excluded nodes exclude_aliases (removeAll node nodes_copy)
            else Inl KeyError)
      else remove_excluded nodes exclude_aliases nodes_copy)"

fun filter_excluded_nodes :: "aliasname list list \<Rightarrow> aliasname list \<Rightarrow> error + aliasname list list" where
  "filter_excluded_nodes [] exclude_aliases = Inr []"
| "filter_excluded_nodes (nodes # build_phases) exclude_aliases =
     (case remove_excluded nodes exclude_aliases (remdups nodes) of
        Inl e \<Rightarrow> Inl e
      | Inr nodes_copy \<Rightarrow>
          (case filter_excluded_nodes build_phases exclude_aliases of
             Inl e \<Rightarrow> Inl e
           | Inr result \<Rightarrow> Inr (if nodes_copy \<noteq> [] then nodes_copy # result else result)))"

section \<open>The job execution service\<close>

text \<open>
  The three calls made on the \<open>Jenkins\<close> client. The service is a parameter: a state of any
  type \<open>'w\<close> and, for each call, its answer and the next state. \<open>get_job_info\<close> is taken with
  the lookup of \<open>nextBuildNumber\<close>; \<open>get_build_stages\<close> raises, returns a falsy value
  (\<open>None\<close>) or returns the stage description, which is taken to have the three keys that the
  code reads: \<open>status\<close>, \<open>durationMillis\<close> and \<open>stages\<close> (\<open>None\<close> or the list of the stages'
  names). The model keeps a log of the calls made.
\<close>

datatype call = GetJobInfo string | BuildJob string | GetBuildStages string int

record StageInfo =
  si_status :: string
  si_durationMillis :: int
  si_stages :: "string list option"

record 'w Jenkins =
  jk_get_job_info :: "string \<Rightarrow> 'w \<Rightarrow> (error + int) \<times> 'w"
  jk_build_job :: "string \<Rightarrow> 'w \<Rightarrow> 'w"
  jk_get_build_stages :: "string \<Rightarrow> int \<Rightarrow> 'w \<Rightarrow> (error + StageInfo option) \<times> 'w"

type_synonym 'w world = "call list \<times> 'w"

text \<open>Class \<open>BuildItem\<close>; the float \<open>duration\<close> is taken as the exact quotient.\<close>

record BuildItem =
  job_name :: string
  build_num :: int
  status :: string
  stage :: string
  duration :: rat

definition RETRIES_COUNT_GET_BUILD_STAGE :: nat where
  "RETRIES_COUNT_GET_BUILD_STAGE = 20"

definition get_next_build_num :: "'w Jenkins \<Rightarrow> string \<Rightarrow> 'w world \<Rightarrow> (error + int) \<times> 'w world" where
  "get_next_build_num jenkins job w =
     (let r = jk_get_job_info jenkins job (snd w)
      in (fst r, (fst w @ [GetJobInfo job], snd r)))"

text \<open>
  \<open>build_job\<close> runs in a thread of its own; an exception there ends the thread and is not
  seen by the caller.
\<close>

definition build_job :: "'w Jenkins \<Rightarrow> string \<Rightarrow> 'w world \<Rightarrow> 'w world" where
  "build_job jenkins job w = (fst w @ [BuildJob job], jk_build_job jenkins job (snd w))"

definition get_build_stages :: "'w Jenkins \<Rightarrow> string \<Rightarrow> int \<Rightarrow> 'w world \<Rightarrow> (error + StageInfo option) \<times> 'w world" where
  "get_build_stages jenkins job num w =
     (let r = jk_get_build_stages jenkins job num (snd w)
      in (fst r, (fst w @ [GetBuildStages job num], snd r)))"

section \<open>Running one phase\<close>

text \<open>\<open>init_build_items\<close>: \<open>aliases[node.name]\<close> raises \<open>KeyError\<close> for an unknown alias.\<close>

fun init_build_items ::
  "aliasname list \<Rightarrow> (aliasname \<times> string) list \<Rightarrow> 'w Jenkins \<Rightarrow> 'w world \<Rightarrow> (error + BuildItem list) \<times> 'w world" where
  "init_build_items [] aliases jenkins w = (Inr [], w)"
| "init_build_items (node # nodes) aliases jenkins w =
     (case map_of aliases node of
        None \<Rightarrow> (Inl KeyError, w)
      | Some job \<Rightarrow>
          (let r = get_next_build_num jenkins job w in
           case fst r of
             Inl e \<Rightarrow> (Inl e, snd r)
           | Inr num \<Rightarrow>
               (let rs = init_build_items nodes aliases jenkins (snd r) in
                case fst rs of
                  Inl e \<Rightarrow> (Inl e, snd rs)
                | Inr items \<Rightarrow>
                    (Inr (\<lparr>job_name = job, build_num = num, status = ''INITIATED'',
                           stage = ''?'', duration = 0\<rparr> # items), snd rs))))"

text \<open>
  \<open>submit_build_and_wait\<close>: one thread per item, all joined. The threads' calls are taken in
  the order of the list.
\<close>

fun submit_build_and_wait :: "BuildItem list \<Rightarrow> 'w Jenkins \<Rightarrow> 'w world \<Rightarrow> 'w world" where
  "submit_build_and_wait [] jenkins w = w"
| "submit_build_and_wait (item # items) jenkins w =
     submit_build_and_wait items jenkins (build_job jenkins (job_name item) w)"

definition update_build_item_from_stage_info :: "BuildItem \<Rightarrow> StageInfo \<Rightarrow> BuildItem" where
  "update_build_item_from_stage_info item stage_info =
     item\<lparr>status := si_status stage_info,
          duration := of_int (si_durationMillis stage_info) / 1000,
          stage := (case si_stages stage_info of
                      None \<Rightarrow> stage item
                    | Some stages \<Rightarrow> if stages \<noteq> [] then last stages else stage item)\<rparr>"

text \<open>
  The retry loop of \<open>get_build_stage_info\<close>, by the number of attempts that remain. It ends
  at the first answer that is not falsy; an exception of the call leaves the loop at once.
\<close>

fun fetch_stage_info :: "nat \<Rightarrow> BuildItem \<Rightarrow> 'w Jenkins \<Rightarrow> 'w world \<Rightarrow> (error + StageInfo option) \<times> 'w world" where
  "fetch_stage_info 0 item jenkins w = (Inr None, w)"
| "fetch_stage_info (Suc tries) item jenkins w =
     (let r = get_build_stages jenkins (job_name item) (build_num item) w in
      case fst r of
        Inl e \<Rightarrow> (Inl e, snd r)
      | Inr None \<Rightarrow> fetch_stage_info tries item jenkins (snd r)
      | Inr (Some stage_info) \<Rightarrow> (Inr (Some stage_info), snd r))"

definition get_build_stage_info :: "BuildItem \<Rightarrow> 'w Jenkins \<Rightarrow> 'w world \<Rightarrow> (error + StageInfo) \<times> 'w world" where
  "get_build_stage_info item jenkins w =
     (let r = fetch_stage_info RETRIES_COUNT_GET_BUILD_STAGE item jenkins w in
      case fst r of
        Inl e \<Rightarrow> (Inl e, snd r)
      | Inr None \<Rightarrow> (Inl IOError, snd r)
      | Inr (Some stage_info) \<Rightarrow> (Inr stage_info, snd r))"

text \<open>The body of the \<open>for item in build_items\<close> loop of one polling tick.\<close>

definition poll_item :: "'w Jenkins \<Rightarrow> BuildItem \<Rightarrow> 'w world \<Rightarrow> BuildItem \<times> 'w world" where
  "poll_item jenkins item w =
     (if status item \<in> set [''FAILED'', ''ABORTED'', ''SUCCESS''] then (item, w)
      else (let r = get_build_stage_info item jenkins w in
            case fst r of
              Inl e \<Rightarrow> (item\<lparr>status := ''FAILED''\<rparr>, snd r)
            | Inr stage_info \<Rightarrow> (update_build_item_from_stage_info item stage_info, snd r)))"

fun poll_items :: "'w Jenkins \<Rightarrow> BuildItem list \<Rightarrow> 'w world \<Rightarrow> BuildItem list \<times> 'w world" where
  "poll_items jenkins [] w = ([], w)"
| "poll_items jenkins (item # items) w =
     (let r = poll_item jenkins item w;
          rs = poll_items jenkins items (snd r)
      in (fst r # fst rs, snd rs))"

text \<open>
  The \<open>while True\<close> loop of \<open>build_phase\<close>; \<open>statuses\<close> is the list of the items' statuses after
  the tick. The loop has no bound, so the result is optional: \<open>None\<close> is a loop that never
  ends.
\<close>

partial_function (option) poll_loop ::
  "'w Jenkins \<Rightarrow> bool \<Rightarrow> BuildItem list \<Rightarrow> 'w world \<Rightarrow> (BuildStatus \<times> BuildItem list \<times> 'w world) option" where
  "poll_loop jenkins ignore_failed build_items w =
     (let r = poll_items jenkins build_items w;
          phase_status = resolve_statuses (map status (fst r)) ignore_failed
      in if phase_status = FAILED \<or> phase_status = SUCCESS
         then Some (phase_status, fst r, snd r)
         else poll_loop jenkins ignore_failed (fst r) (snd r))"

declare poll_loop.simps [code]

definition build_phase ::
  "aliasname list \<Rightarrow> (aliasname \<times> string) list \<Rightarrow> 'w Jenkins \<Rightarrow> bool \<Rightarrow> 'w world
     \<Rightarrow> ((error + BuildStatus) \<times> 'w world) option" where
  "build_phase nodes aliases jenkins ignore_failed w =
     (let r = init_build_items nodes aliases jenkins w in
      case fst r of
        Inl e \<Rightarrow> Some (Inl e, snd r)
      | Inr build_items \<Rightarrow>
          (case poll_loop jenkins ignore_failed build_items
                  (submit_build_and_wait build_items jenkins (snd r)) of
             None \<Rightarrow> None
           | Some res \<Rightarrow>
               Some (Inr (if \<not> ignore_failed \<and> fst res = FAILED then FAILED else IN_PROGRESS),
                     snd (snd res))))"

section \<open>The pipeline driver\<close>

text \<open>
  The \<open>for phase in range(len(build_phases))\<close> loop of \<open>main\<close>, with \<open>final_status\<close> as its
  result. An exception of \<open>build_phase\<close> leaves the loop.
\<close>

fun run_phases ::
  "aliasname list list \<Rightarrow> (aliasname \<times> string) list \<Rightarrow> 'w Jenkins \<Rightarrow> bool \<Rightarrow> 'w world
     \<Rightarrow> ((error + BuildStatus) \<times> 'w world) option" where
  "run_phases [] aliases jenkins ignore_failed w = Some (Inr SUCCESS, w)"
| "run_phases (phase # build_phases) aliases jenkins ignore_failed w =
     (case build_phase phase aliases jenkins ignore_failed w of
        None \<Rightarrow> None
      | Some r \<Rightarrow>
          (case fst r of
             Inl e \<Rightarrow> Some (Inl e, snd r)
           | Inr phase_status \<Rightarrow>
               if phase_status = FAILED then Some (Inr FAILED, snd r)
               else run_phases build_phases aliases jenkins ignore_failed (snd r)))"

text \<open>
  How a run of \<open>main\<close> ends: \<open>exit(0)\<close> for a missing start point, an exception, the message
  that no job was built, or the final status that is printed.
\<close>

datatype outcome = Exited | Raised error | NoJobBuilt | Final BuildStatus

text \<open>Class \<open>Config\<close>, as \<open>read_conf_file\<close> returns it; endpoint and credentials are not read
  by the functions modelled here.\<close>

record Config =
  cfg_aliases :: "(aliasname \<times> string) list"
  cfg_dependencies :: "(aliasname \<times> aliasname) list"

text \<open>
  \<open>main\<close>, from the loaded configuration and the client on. \<open>start_point\<close> is \<open>None\<close> when the
  option is not given; \<open>exclude_aliases\<close> is the tuple of the excluded aliases.
\<close>

definition main ::
  "Config \<Rightarrow> aliasname option \<Rightarrow> aliasname list \<Rightarrow> bool \<Rightarrow> 'w Jenkins \<Rightarrow> 'w world
     \<Rightarrow> (outcome \<times> 'w world) option" where
  "main config start_point exclude_aliases ignore_failed jenkins w =
     (case start_point of
        None \<Rightarrow> Some (Exited, w)
      | Some sp \<Rightarrow>
          if sp = [] then Some (Exited, w)
          else
            (case build_graph (cfg_aliases config) (cfg_dependencies config) of
               Inl e \<Rightarrow> Some (Raised e, w)
             | Inr graph \<Rightarrow>
                 (case get_topo_sort graph (graph_get graph sp) of
                    Inl e \<Rightarrow> Some (Raised e, w)
                  | Inr layers \<Rightarrow>
                      (case (if exclude_aliases \<noteq> []
                             then filter_excluded_nodes layers exclude_aliases
                             else Inr layers) of
                         Inl e \<Rightarrow> Some (Raised e, w)
                       | Inr build_phases \<Rightarrow>
                           if build_phases = [] then Some (NoJobBuilt, w)
                           else
                             (case run_phases build_phases (cfg_aliases config) jenkins ignore_failed w of
                                None \<Rightarrow> None
                              | Some r \<Rightarrow>
                                  (case fst r of
                                     Inl e \<Rightarrow> Some (Raised e, snd r)
                                   | Inr final_status \<Rightarrow> Some (Final final_status, snd r)))))))"

section \<open>Vocabulary of the properties\<close>

text \<open>The index of the first phase that holds a node, if there is one.\<close>

fun phase_index :: "aliasname list list \<Rightarrow> aliasname \<Rightarrow> nat option" where
  "phase_index [] v = None"
| "phase_index (p # ps) v = (if v \<in> set p then Some 0 else map_option Suc (phase_index ps v))"

text \<open>What \<open>filter_excluded_nodes\<close> leaves of one phase: its nodes that are not excluded.\<close>

definition kept :: "aliasname list \<Rightarrow> aliasname list \<Rightarrow> aliasname list" where
  "kept ex p = filter (\<lambda>n. n \<notin> set ex) (remdups p)"

text \<open>
  The phases of a list, run in order, each return a status other than \<open>FAILED\<close>; the result
  is the state of the service afterwards.
\<close>

fun phases_pass ::
  "aliasname list list \<Rightarrow> (aliasname \<times> string) list \<Rightarrow> 'w Jenkins \<Rightarrow> bool \<Rightarrow> 'w world
     \<Rightarrow> 'w world option" where
  "phases_pass [] als jenkins ignore_failed w = Some w"
| "phases_pass (p # ps) als jenkins ignore_failed w =
     (case build_phase p als jenkins ignore_failed w of
        None \<Rightarrow> None
      | Some r \<Rightarrow>
          (case fst r of
             Inl e \<Rightarrow> None
           | Inr st \<Rightarrow> if st = FAILED then None else phases_pass ps als jenkins ignore_failed (snd r)))"

text \<open>
  The build items and the state of the service after \<open>n\<close> polling ticks, and the verdict of
  the items' statuses then.
\<close>

fun poll_ticks :: "nat \<Rightarrow> 'w Jenkins \<Rightarrow> BuildItem list \<Rightarrow> 'w world \<Rightarrow> BuildItem list \<times> 'w world" where
  "poll_ticks 0 jenkins build_items w = (build_items, w)"
| "poll_ticks (Suc n) jenkins build_items w =
     poll_ticks n jenkins (fst (poll_items jenkins build_items w)) (snd (poll_items jenkins build_items w))"

definition verdict_after :: "nat \<Rightarrow> 'w Jenkins \<Rightarrow> bool \<Rightarrow> BuildItem list \<Rightarrow> 'w world \<Rightarrow> BuildStatus" where
  "verdict_after n jenkins ignore_failed build_items w =
     resolve_statuses (map status (fst (poll_ticks n jenkins build_items w))) ignore_failed"

text \<open>
  The children and the counter of the node stored under an alias (none and zero where the
  store has no such node).
\<close>

definition children_of :: "graph \<Rightarrow> aliasname \<Rightarrow> aliasname list" where
  "children_of g v = (case map_of g v of None \<Rightarrow> [] | Some n \<Rightarrow> children n)"

definition inbound_of :: "graph \<Rightarrow> aliasname \<Rightarrow> int" where
  "inbound_of g v = (case map_of g v of None \<Rightarrow> 0 | Some n \<Rightarrow> inbound n)"

text \<open>
  The nodes whose counter is positive in \<open>i\<close> and not positive in \<open>i'\<close>: with \<open>i'\<close> below \<open>i\<close>,
  the ones that have reached zero in between.
\<close>

definition zeroed :: "(aliasname \<Rightarrow> int) \<Rightarrow> (aliasname \<Rightarrow> int) \<Rightarrow> aliasname set" where
  "zeroed i i' = {v. 0 < i v \<and> i' v \<le> 0}"

text \<open>
  How often the counter of \<open>v\<close> is decremented while the nodes of \<open>q\<close> are visited, and the
  counters after that.
\<close>

definition decs :: "(aliasname \<Rightarrow> aliasname list) \<Rightarrow> aliasname list \<Rightarrow> aliasname \<Rightarrow> nat" where
  "decs ch q v = count_list (concat (map ch q)) v"

definition after :: "(aliasname \<Rightarrow> aliasname list) \<Rightarrow> (aliasname \<Rightarrow> int) \<Rightarrow> aliasname list \<Rightarrow> aliasname \<Rightarrow> int" where
  "after ch inb q v = inb v - int (decs ch q v)"

text \<open>
  \<open>layered ch inb q rest\<close>: from the counters \<open>inb\<close> and the queue \<open>q\<close>, the layers that follow
  are \<open>rest\<close>. Each next layer holds, once each, the nodes that reach zero while the layer
  before it is visited, and after the last layer no node does.
\<close>

fun layered ::
  "(aliasname \<Rightarrow> aliasname list) \<Rightarrow> (aliasname \<Rightarrow> int) \<Rightarrow> aliasname list \<Rightarrow> aliasname list list \<Rightarrow> bool" where
  "layered ch inb q [] \<longleftrightarrow> zeroed inb (after ch inb q) = {}"
| "layered ch inb q (q' # rest) \<longleftrightarrow>
     q' \<noteq> [] \<and> distinct q' \<and> set q' = zeroed inb (after ch inb q)
     \<and> layered ch (after ch inb q) q' rest"

text \<open>
  The edges that the children lists make, from a node to each child.
\<close>

definition edges :: "(aliasname \<Rightarrow> aliasname list) \<Rightarrow> (aliasname \<times> aliasname) set" where
  "edges ch = {(u, v). v \<in> set (ch u)}"

text \<open>
  The children lists and the counters that \<open>build_graph\<close> computes from the dependency list:
  the dependents of \<open>p\<close> in the order of the list, and the number of pairs whose dependent
  is \<open>d\<close>.
\<close>

definition ch_of :: "(aliasname \<times> aliasname) list \<Rightarrow> aliasname \<Rightarrow> aliasname list" where
  "ch_of deps p = map fst (filter (\<lambda>e. snd e = p) deps)"

definition inb_of :: "(aliasname \<times> aliasname) list \<Rightarrow> aliasname \<Rightarrow> int" where
  "inb_of deps d = int (length (filter (\<lambda>e. fst e = d) deps))"

text \<open>
  The dependency relation as edges from a prerequisite to its dependent: the direction in
  which \<open>get_topo_sort\<close> walks. An alias is reachable from the start \<open>s\<close> if
  \<open>(s, v) \<in> (succs deps)\<^sup>*\<close>, and lies on a cycle if \<open>(v, v) \<in> (succs deps)\<^sup>+\<close>.
\<close>

definition succs :: "(aliasname \<times> aliasname) list \<Rightarrow> (aliasname \<times> aliasname) set" where
  "succs deps = {(p, d). (d, p) \<in> set deps}"

section \<open>Example services\<close>

text \<open>
  Three services with which the theorems are instantiated: every build succeeds at once;
  the build of \<open>job-a\<close> never shows up, the others succeed; every build is aborted.
\<close>

definition jk_success :: "unit Jenkins" where
  "jk_success =
     \<lparr>jk_get_job_info = (\<lambda>job w. (Inr 7, w)),
      jk_build_job = (\<lambda>job w. w),
      jk_get_build_stages = (\<lambda>job num w.
         (Inr (Some \<lparr>si_status = ''SUCCESS'', si_durationMillis = 2000,
                      si_stages = Some [''build'', ''test'']\<rparr>), w))\<rparr>"

definition jk_absent_a :: "unit Jenkins" where
  "jk_absent_a =
     \<lparr>jk_get_job_info = (\<lambda>job w. (Inr 7, w)),
      jk_build_job = (\<lambda>job w. w),
      jk_get_build_stages = (\<lambda>job num w.
         (if job = ''job-a'' then Inr None
          else Inr (Some \<lparr>si_status = ''SUCCESS'', si_durationMillis = 2000, si_stages = None\<rparr>),
          w))\<rparr>"

definition jk_aborted :: "unit Jenkins" where
  "jk_aborted =
     \<lparr>jk_get_job_info = (\<lambda>job w. (Inr 7, w)),
      jk_build_job = (\<lambda>job w. w),
      jk_get_build_stages = (\<lambda>job num w.
         (Inr (Some \<lparr>si_status = ''ABORTED'', si_durationMillis = 2000, si_stages = None\<rparr>), w))\<rparr>"

text \<open>
  Two more: every build is reported as still running, whenever it is asked for; the build
  is running at the first request and has succeeded at the second.
\<close>

definition jk_running :: "unit Jenkins" where
  "jk_running =
     \<lparr>jk_get_job_info = (\<lambda>job w. (Inr 7, w)),
      jk_build_job = (\<lambda>job w. w),
      jk_get_build_stages = (\<lambda>job num w.
         (Inr (Some \<lparr>si_status = ''IN_PROGRESS'', si_durationMillis = 2000, si_stages = None\<rparr>), w))\<rparr>"

definition jk_second_tick :: "nat Jenkins" where
  "jk_second_tick =
     \<lparr>jk_get_job_info = (\<lambda>job w. (Inr 7, w)),
      jk_build_job = (\<lambda>job w. w),
      jk_get_build_stages = (\<lambda>job num w.
         (Inr (Some \<lparr>si_status = (if w = 0 then ''IN_PROGRESS'' else ''SUCCESS''),
                      si_durationMillis = 2000, si_stages = None\<rparr>), Suc w))\<rparr>"

definition example_aliases :: "(aliasname \<times> string) list" where
  "example_aliases = [(''A'', ''job-a''), (''B'', ''job-b''), (''C'', ''job-c'')]"

definition item_a :: BuildItem where
  "item_a = \<lparr>job_name = ''job-a'', build_num = 7, status = ''INITIATED'', stage = ''?'', duration = 0\<rparr>"

definition item_b :: BuildItem where
  "item_b = \<lparr>job_name = ''job-b'', build_num = 7, status = ''INITIATED'', stage = ''?'', duration = 0\<rparr>"

section \<open>Properties of the verdict\<close>

lemma count_list_full: "count_list xs x = length xs \<longleftrightarrow> (\<forall>y \<in> set xs. y = x)"
proof (induction xs)
  case Nil
  then show ?case by simp
next
  case (Cons a xs)
  have "count_list xs x \<le> length xs" by (rule count_le_length)
  with Cons show ?case by auto
qed

lemma count_list_pos: "0 < count_list xs x \<longleftrightarrow> x \<in> set xs"
  by (induction xs) auto

text \<open>
  C2, as stated, at the empty list: every status of the empty list equals \<open>SUCCESS\<close>, and
  \<open>resolve_statuses\<close> does not return \<open>SUCCESS\<close> for it.
\<close>

theorem resolve_statuses_empty_not_success:
  "\<not> (resolve_statuses [] False = SUCCESS \<longleftrightarrow> (\<forall>s \<in> set ([] :: string list). s = ''SUCCESS''))"
  by (simp add: resolve_statuses_def)

text \<open>
  C2, amended: \<open>resolve_statuses\<close> returns \<open>SUCCESS\<close> iff the list is not empty and every status
  equals \<open>SUCCESS\<close>; \<open>FAILED\<close> iff some status equals \<open>FAILED\<close>, or ignore-failed is false and some
  status equals \<open>ABORTED\<close>; and \<open>IN_PROGRESS\<close> otherwise, which includes the empty list.
\<close>

theorem resolve_statuses_verdict:
  "(resolve_statuses statuses ignore_failed = SUCCESS
      \<longleftrightarrow> statuses \<noteq> [] \<and> (\<forall>s \<in> set statuses. s = ''SUCCESS''))
   \<and> (resolve_statuses statuses ignore_failed = FAILED
      \<longleftrightarrow> ''FAILED'' \<in> set statuses \<or> (\<not> ignore_failed \<and> ''ABORTED'' \<in> set statuses))
   \<and> (resolve_statuses statuses ignore_failed = IN_PROGRESS
      \<longleftrightarrow> \<not> (statuses \<noteq> [] \<and> (\<forall>s \<in> set statuses. s = ''SUCCESS''))
          \<and> \<not> (''FAILED'' \<in> set statuses \<or> (\<not> ignore_failed \<and> ''ABORTED'' \<in> set statuses)))"
proof -
  have all: "count_list statuses ''SUCCESS'' = length statuses
      \<longleftrightarrow> (\<forall>s \<in> set statuses. s = ''SUCCESS'')"
    by (rule count_list_full)
  have failed: "0 < count_list statuses ''FAILED'' \<longleftrightarrow> ''FAILED'' \<in> set statuses"
    by (rule count_list_pos)
  have aborted: "0 < count_list statuses ''ABORTED'' \<longleftrightarrow> ''ABORTED'' \<in> set statuses"
    by (rule count_list_pos)
  show ?thesis
    unfolding resolve_statuses_def all failed aborted by auto
qed

theorem resolve_statuses_verdict_witness:
  "resolve_statuses [''SUCCESS'', ''SUCCESS''] False = SUCCESS
   \<and> resolve_statuses [''SUCCESS'', ''FAILED''] True = FAILED
   \<and> resolve_statuses [''SUCCESS'', ''ABORTED''] False = FAILED
   \<and> resolve_statuses [''SUCCESS'', ''ABORTED''] True = IN_PROGRESS
   \<and> resolve_statuses [] True = IN_PROGRESS"
  using resolve_statuses_verdict [of "[''SUCCESS'', ''SUCCESS'']" False]
    resolve_statuses_verdict [of "[''SUCCESS'', ''FAILED'']" True]
    resolve_statuses_verdict [of "[''SUCCESS'', ''ABORTED'']" False]
    resolve_statuses_verdict [of "[''SUCCESS'', ''ABORTED'']" True]
    resolve_statuses_verdict [of "[]" True]
  by simp

section \<open>Properties of the exclusion filter\<close>

lemma remove_excluded_result:
  "remove_excluded nodes ex nodes_copy = Inr r \<Longrightarrow>
   r = filter (\<lambda>n. \<not> (n \<in> set nodes \<and> n \<in> set ex)) nodes_copy"
proof (induction nodes arbitrary: nodes_copy)
  case Nil
  then show ?case by simp
next
  case (Cons n nodes)
  show ?case
  proof (cases "n \<in> set ex")
    case True
    with Cons.prems have "remove_excluded nodes ex (removeAll n nodes_copy) = Inr r"
      by (simp split: if_splits)
    then have "r = filter (\<lambda>m. \<not> (m \<in> set nodes \<and> m \<in> set ex)) (removeAll n nodes_copy)"
      by (rule Cons.IH)
    with True show ?thesis
      by (auto simp: removeAll_filter_not_eq intro: filter_cong)
  next
    case False
    with Cons.prems have "remove_excluded nodes ex nodes_copy = Inr r"
      by simp
    then have "r = filter (\<lambda>m. \<not> (m \<in> set nodes \<and> m \<in> set ex)) nodes_copy"
      by (rule Cons.IH)
    with False show ?thesis
      by (auto intro: filter_cong)
  qed
qed

lemma remove_excluded_distinct:
  "distinct nodes \<Longrightarrow> set nodes \<inter> set ex \<subseteq> set nodes_copy \<Longrightarrow>
   \<exists>r. remove_excluded nodes ex nodes_copy = Inr r"
proof (induction nodes arbitrary: nodes_copy)
  case Nil
  then show ?case by simp
next
  case (Cons n nodes)
  show ?case
  proof (cases "n \<in> set ex")
    case True
    with Cons.prems have in_copy: "n \<in> set nodes_copy" by auto
    from Cons.prems have "set nodes \<inter> set ex \<subseteq> set (removeAll n nodes_copy)"
      by auto
    with Cons.prems Cons.IH [of "removeAll n nodes_copy"]
    obtain r where "remove_excluded nodes ex (removeAll n nodes_copy) = Inr r"
      by auto
    with True in_copy show ?thesis by simp
  next
    case False
    with Cons.prems Cons.IH [of nodes_copy] show ?thesis by auto
  qed
qed

lemma set_kept: "set (kept ex p) = set p - set ex"
  by (auto simp: kept_def)

lemma remove_excluded_phase:
  assumes "remove_excluded nodes ex (remdups nodes) = Inr r"
  shows "r = kept ex nodes"
  using remove_excluded_result [OF assms] unfolding kept_def
  by (auto intro: filter_cong)

lemma filter_excluded_nodes_result:
  "filter_excluded_nodes build_phases ex = Inr result \<Longrightarrow>
   result = filter (\<lambda>p. p \<noteq> []) (map (kept ex) build_phases)"
proof (induction build_phases arbitrary: result)
  case Nil
  then show ?case by simp
next
  case (Cons p ps)
  from Cons.prems obtain r where r: "remove_excluded p ex (remdups p) = Inr r"
    by (cases "remove_excluded p ex (remdups p)") simp_all
  with Cons.prems obtain rest where rest: "filter_excluded_nodes ps ex = Inr rest"
    by (cases "filter_excluded_nodes ps ex") simp_all
  from r have "r = kept ex p" by (rule remove_excluded_phase)
  moreover from rest have "rest = filter (\<lambda>p. p \<noteq> []) (map (kept ex) ps)"
    by (rule Cons.IH)
  ultimately show ?case using Cons.prems r rest by auto
qed

lemma filter_excluded_nodes_returns:
  "\<forall>p \<in> set build_phases. distinct p \<Longrightarrow> \<exists>result. filter_excluded_nodes build_phases ex = Inr result"
proof (induction build_phases)
  case Nil
  then show ?case by simp
next
  case (Cons p ps)
  then have "distinct p" by simp
  then obtain r where "remove_excluded p ex (remdups p) = Inr r"
    using remove_excluded_distinct [of p ex "remdups p"] by auto
  moreover from Cons obtain rest where "filter_excluded_nodes ps ex = Inr rest"
    by auto
  ultimately show ?case by simp
qed

lemma map_set_kept:
  "map set (filter (\<lambda>p. p \<noteq> []) (map (kept ex) build_phases))
     = filter (\<lambda>S. S \<noteq> {}) (map (\<lambda>p. set p - set ex) build_phases)"
proof (induction build_phases)
  case Nil
  then show ?case by simp
next
  case (Cons p ps)
  have "kept ex p = [] \<longleftrightarrow> set p - set ex = {}"
    using set_kept [of ex p] by (metis set_empty)
  with Cons show ?case by (simp add: set_kept)
qed

lemma phase_index_kept:
  "v \<notin> set ex \<Longrightarrow> phase_index build_phases v = Some i \<Longrightarrow>
   phase_index (filter (\<lambda>p. p \<noteq> []) (map (kept ex) build_phases)) v
     = Some (i - length (filter (\<lambda>p. set p \<subseteq> set ex) (take i build_phases)))"
proof (induction build_phases arbitrary: i)
  case Nil
  then show ?case by simp
next
  case (Cons p ps)
  let ?res = "filter (\<lambda>p. p \<noteq> []) (map (kept ex) ps)"
  have kept_empty: "kept ex p = [] \<longleftrightarrow> set p \<subseteq> set ex"
    using set_kept [of ex p] by (metis Diff_eq_empty_iff set_empty)
  show ?case
  proof (cases "v \<in> set p")
    case True
    with Cons.prems have "i = 0" by simp
    moreover from True Cons.prems have "v \<in> set (kept ex p)" by (simp add: set_kept)
    moreover from this have "kept ex p \<noteq> []" by auto
    ultimately show ?thesis by simp
  next
    case False
    with Cons.prems obtain j where j: "phase_index ps v = Some j" and i: "i = Suc j"
      by auto
    let ?d = "length (filter (\<lambda>p. set p \<subseteq> set ex) (take j ps))"
    from Cons.IH [OF Cons.prems(1) j]
    have IH: "phase_index ?res v = Some (j - ?d)" .
    have d_le: "?d \<le> j"
      by (rule order_trans [OF length_filter_le]) simp
    from False have not_in: "v \<notin> set (kept ex p)" by (simp add: set_kept)
    show ?thesis
    proof (cases "set p \<subseteq> set ex")
      case True
      with kept_empty IH i d_le show ?thesis by simp
    next
      case sub: False
      with kept_empty have "kept ex p \<noteq> []" by simp
      with not_in show ?thesis using IH i d_le sub by (simp add: Suc_diff_le)
    qed
  qed
qed

text \<open>
  C5, as stated, fails where a phase is left empty: the phase is dropped, and the nodes of
  the later phases move one index down.
\<close>

theorem filter_excluded_nodes_shift_counterexample:
  "filter_excluded_nodes [[''A''], [''B'']] [''A''] = Inr [[''B'']]
   \<and> ''B'' \<notin> set [''A'']
   \<and> phase_index [[''A''], [''B'']] ''B'' = Some 1
   \<and> phase_index [[''B'']] ''B'' = Some 0"
  by simp

text \<open>
  C5, amended: the filter returns whenever no phase repeats a node (otherwise the second
  \<open>remove\<close> of an excluded node raises); and whenever it returns, the result is the list of
  the phases' sets without the excluded aliases, in their order, with the empty ones left
  out. A node that is not excluded and was at index \<open>i\<close> is then at \<open>i\<close> minus the number of
  earlier phases that held excluded nodes only: at \<open>i\<close> itself when there is none.
\<close>

theorem filter_excluded_nodes_keeps_order:
  "((\<forall>p \<in> set build_phases. distinct p) \<longrightarrow>
      (\<exists>result. filter_excluded_nodes build_phases ex = Inr result))
   \<and> (\<forall>result. filter_excluded_nodes build_phases ex = Inr result \<longrightarrow>
        map set result = filter (\<lambda>S. S \<noteq> {}) (map (\<lambda>p. set p - set ex) build_phases)
        \<and> (\<forall>v i. v \<notin> set ex \<and> phase_index build_phases v = Some i \<longrightarrow>
              phase_index result v
                = Some (i - length (filter (\<lambda>p. set p \<subseteq> set ex) (take i build_phases)))))"
proof (intro conjI allI impI)
  assume "\<forall>p \<in> set build_phases. distinct p"
  then show "\<exists>result. filter_excluded_nodes build_phases ex = Inr result"
    by (rule filter_excluded_nodes_returns)
next
  fix result
  assume "filter_excluded_nodes build_phases ex = Inr result"
  then have res: "result = filter (\<lambda>p. p \<noteq> []) (map (kept ex) build_phases)"
    by (rule filter_excluded_nodes_result)
  then show "map set result = filter (\<lambda>S. S \<noteq> {}) (map (\<lambda>p. set p - set ex) build_phases)"
    by (simp add: map_set_kept)
  fix v i
  assume "v \<notin> set ex \<and> phase_index build_phases v = Some i"
  then show "phase_index result v
      = Some (i - length (filter (\<lambda>p. set p \<subseteq> set ex) (take i build_phases)))"
    unfolding res by (simp add: phase_index_kept)
qed


theorem filter_excluded_nodes_keeps_order_witness:
  "(\<exists>result. filter_excluded_nodes [[''A''], [''X''], [''B'', ''C'']] [''X'', ''C''] = Inr result
      \<and> map set result = [{''A''}, {''B''}]
      \<and> phase_index result ''A'' = Some 0
      \<and> phase_index result ''B'' = Some 1)"
proof -
  let ?phases = "[[''A''], [''X''], [''B'', ''C'']]"
  let ?ex = "[''X'', ''C'']"
  note inst = filter_excluded_nodes_keeps_order [of ?phases ?ex]
  have "\<forall>p \<in> set ?phases. distinct p" by simp
  with inst [THEN conjunct1] obtain result where r: "filter_excluded_nodes ?phases ?ex = Inr result"
    by (elim impE exE)
  note post = inst [THEN conjunct2, THEN spec, THEN mp, OF r]
  from post have sets: "map set result = filter (\<lambda>S. S \<noteq> {}) (map (\<lambda>p. set p - set ?ex) ?phases)"
    by (rule conjunct1)
  have "''A'' \<notin> set ?ex \<and> phase_index ?phases ''A'' = Some 0" by simp
  with post [THEN conjunct2, THEN spec, THEN spec, THEN mp]
  have a: "phase_index result ''A''
      = Some (0 - length (filter (\<lambda>p. set p \<subseteq> set ?ex) (take 0 ?phases)))" .
  have "''B'' \<notin> set ?ex \<and> phase_index ?phases ''B'' = Some 2" by simp
  with post [THEN conjunct2, THEN spec, THEN spec, THEN mp]
  have b: "phase_index result ''B''
      = Some (2 - length (filter (\<lambda>p. set p \<subseteq> set ?ex) (take 2 ?phases)))" .
  have "filter (\<lambda>S. S \<noteq> {}) (map (\<lambda>p. set p - set ?ex) ?phases) = [{''A''}, {''B''}]"
    by auto
  with sets have s': "map set result = [{''A''}, {''B''}]" by simp
  from a have a': "phase_index result ''A'' = Some 0" by simp
  from b have b': "phase_index result ''B'' = Some 1" by simp
  show ?thesis
    by (rule exI [of _ result]) (simp only: r s' a' b' simp_thms)
qed

section \<open>Properties of the polling loop\<close>

lemma poll_item_terminal:
  "status item \<in> set [''FAILED'', ''ABORTED'', ''SUCCESS''] \<Longrightarrow> poll_item jenkins item w = (item, w)"
  by (simp add: poll_item_def)

lemma poll_items_terminal:
  "\<forall>item \<in> set items. status item \<in> set [''FAILED'', ''ABORTED'', ''SUCCESS''] \<Longrightarrow>
   poll_items jenkins items w = (items, w)"
proof (induction items arbitrary: w)
  case Nil
  then show ?case by simp
next
  case (Cons item items)
  then have "poll_item jenkins item w = (item, w)"
    by (simp only: poll_item_terminal list.set_intros)
  moreover from Cons have "poll_items jenkins items w = (items, w)"
    by simp
  ultimately show ?case by (simp add: Let_def)
qed

lemma poll_loop_stuck:
  assumes fin: "\<forall>item \<in> set items. status item \<in> set [''FAILED'', ''ABORTED'', ''SUCCESS'']"
    and verdict: "resolve_statuses (map status items) ignore_failed = IN_PROGRESS"
  shows "poll_loop jenkins ignore_failed items w = None"
proof (rule ccontr)
  assume "poll_loop jenkins ignore_failed items w \<noteq> None"
  then obtain res where ret: "poll_loop jenkins ignore_failed items w = Some res"
    by auto
  have "\<not> ((\<forall>item \<in> set items. status item \<in> set [''FAILED'', ''ABORTED'', ''SUCCESS''])
          \<and> resolve_statuses (map status items) ignore_failed = IN_PROGRESS)"
  proof (rule poll_loop.raw_induct
      [where P = "\<lambda>jk ign its w res.
         \<not> ((\<forall>item \<in> set its. status item \<in> set [''FAILED'', ''ABORTED'', ''SUCCESS''])
            \<and> resolve_statuses (map status its) ign = IN_PROGRESS)", OF _ ret])
    fix f :: "'a Jenkins \<Rightarrow> bool \<Rightarrow> BuildItem list \<Rightarrow> 'a world
                \<Rightarrow> (BuildStatus \<times> BuildItem list \<times> 'a world) option"
      and jk ign its w res
    assume IH: "\<And>jk ign its w res. f jk ign its w = Some res \<Longrightarrow>
        \<not> ((\<forall>item \<in> set its. status item \<in> set [''FAILED'', ''ABORTED'', ''SUCCESS''])
           \<and> resolve_statuses (map status its) ign = IN_PROGRESS)"
      and eq: "(let r = poll_items jk its w;
                    phase_status = resolve_statuses (map status (fst r)) ign
                in if phase_status = FAILED \<or> phase_status = SUCCESS
                   then Some (phase_status, fst r, snd r)
                   else f jk ign (fst r) (snd r)) = Some res"
    show "\<not> ((\<forall>item \<in> set its. status item \<in> set [''FAILED'', ''ABORTED'', ''SUCCESS''])
           \<and> resolve_statuses (map status its) ign = IN_PROGRESS)"
    proof
      assume inv: "(\<forall>item \<in> set its. status item \<in> set [''FAILED'', ''ABORTED'', ''SUCCESS''])
           \<and> resolve_statuses (map status its) ign = IN_PROGRESS"
      then have "poll_items jk its w = (its, w)"
        by (intro poll_items_terminal) (rule conjunct1)
      moreover from inv have "resolve_statuses (map status its) ign = IN_PROGRESS"
        by (rule conjunct2)
      ultimately have "f jk ign its w = Some res"
        using eq by (simp add: Let_def)
      from IH [OF this] inv show False by (rule notE)
    qed
  qed
  with fin verdict show False by simp
qed


lemma init_build_items_one_aborted:
  "init_build_items [''A''] [(''A'', ''job-a'')] jk_aborted ([], ())
     = (Inr [\<lparr>job_name = ''job-a'', build_num = 7, status = ''INITIATED'', stage = ''?'',
               duration = 0\<rparr>], ([GetJobInfo ''job-a''], ()))"
  by (simp add: jk_aborted_def get_next_build_num_def)

lemma submit_one_aborted:
  "submit_build_and_wait
      [\<lparr>job_name = ''job-a'', build_num = 7, status = ''INITIATED'', stage = ''?'', duration = 0\<rparr>]
      jk_aborted ([GetJobInfo ''job-a''], ())
     = ([GetJobInfo ''job-a'', BuildJob ''job-a''], ())"
  by (simp add: build_job_def)

lemma first_tick_aborted:
  "poll_items jk_aborted
      [\<lparr>job_name = ''job-a'', build_num = 7, status = ''INITIATED'', stage = ''?'', duration = 0\<rparr>]
      ([GetJobInfo ''job-a'', BuildJob ''job-a''], ())
     = ([\<lparr>job_name = ''job-a'', build_num = 7, status = ''ABORTED'', stage = ''?'', duration = 2\<rparr>],
        ([GetJobInfo ''job-a'', BuildJob ''job-a'', GetBuildStages ''job-a'' 7], ()))"
  by (simp add: jk_aborted_def poll_item_def get_build_stage_info_def
      RETRIES_COUNT_GET_BUILD_STAGE_def numeral_eq_Suc get_build_stages_def
      update_build_item_from_stage_info_def Let_def)

text \<open>
  C7: with ignore-failed set, a phase with a \<open>FAILED\<close> or \<open>ABORTED\<close> item should return
  \<open>IN_PROGRESS\<close> so that the pipeline proceeds. For one job whose build is reported \<open>ABORTED\<close>
  the code does not return: the item is terminal and is not polled again, and the verdict of
  its status list stays \<open>IN_PROGRESS\<close>.
\<close>

theorem build_phase_hangs_on_aborted:
  "build_phase [''A''] [(''A'', ''job-a'')] jk_aborted True ([], ()) = None"
proof -
  let ?item = "\<lparr>job_name = ''job-a'', build_num = 7, status = ''ABORTED'', stage = ''?'',
                 duration = 2\<rparr>"
  let ?w = "([GetJobInfo ''job-a'', BuildJob ''job-a'', GetBuildStages ''job-a'' 7], ())"
  have verdict: "resolve_statuses (map status [?item]) True = IN_PROGRESS"
    by (simp add: resolve_statuses_def)
  have "\<forall>item \<in> set [?item]. status item \<in> set [''FAILED'', ''ABORTED'', ''SUCCESS'']"
    by simp
  then have stuck: "poll_loop jk_aborted True [?item] ?w = None"
    using verdict by (rule poll_loop_stuck)
  have "poll_loop jk_aborted True
          [\<lparr>job_name = ''job-a'', build_num = 7, status = ''INITIATED'', stage = ''?'',
            duration = 0\<rparr>]
          ([GetJobInfo ''job-a'', BuildJob ''job-a''], ()) = None"
    by (subst poll_loop.simps) (simp only: first_tick_aborted Let_def fst_conv snd_conv verdict stuck
        BuildStatus.distinct simp_thms if_False)
  then show ?thesis
    unfolding build_phase_def init_build_items_one_aborted Let_def fst_conv snd_conv sum.case
      submit_one_aborted
    by simp
qed

lemma poll_loop_verdict:
  assumes ret: "poll_loop jenkins ignore_failed items w = Some res"
  shows "fst res = resolve_statuses (map status (fst (snd res))) ignore_failed
         \<and> (fst res = FAILED \<or> fst res = SUCCESS)"
proof (rule poll_loop.raw_induct
    [where P = "\<lambda>jk ign its w res.
       fst res = resolve_statuses (map status (fst (snd res))) ign
       \<and> (fst res = FAILED \<or> fst res = SUCCESS)", OF _ ret])
  fix f :: "'a Jenkins \<Rightarrow> bool \<Rightarrow> BuildItem list \<Rightarrow> 'a world
              \<Rightarrow> (BuildStatus \<times> BuildItem list \<times> 'a world) option"
    and jk ign its w res
  assume IH: "\<And>jk ign its w res. f jk ign its w = Some res \<Longrightarrow>
      fst res = resolve_statuses (map status (fst (snd res))) ign
      \<and> (fst res = FAILED \<or> fst res = SUCCESS)"
    and eq: "(let r = poll_items jk its w;
                  phase_status = resolve_statuses (map status (fst r)) ign
              in if phase_status = FAILED \<or> phase_status = SUCCESS
                 then Some (phase_status, fst r, snd r)
                 else f jk ign (fst r) (snd r)) = Some res"
  let ?r = "poll_items jk its w"
  let ?v = "resolve_statuses (map status (fst ?r)) ign"
  show "fst res = resolve_statuses (map status (fst (snd res))) ign
      \<and> (fst res = FAILED \<or> fst res = SUCCESS)"
  proof (cases "?v = FAILED \<or> ?v = SUCCESS")
    case True
    with eq have "res = (?v, fst ?r, snd ?r)" by (simp add: Let_def)
    with True show ?thesis by simp
  next
    case False
    with eq have "f jk ign (fst ?r) (snd ?r) = Some res" by (simp add: Let_def)
    then show ?thesis by (rule IH)
  qed
qed

lemma poll_loop_first_verdict:
  "(\<forall>k < n. verdict_after (Suc k) jenkins ignore_failed build_items w \<noteq> FAILED
            \<and> verdict_after (Suc k) jenkins ignore_failed build_items w \<noteq> SUCCESS) \<Longrightarrow>
   verdict_after (Suc n) jenkins ignore_failed build_items w = FAILED
     \<or> verdict_after (Suc n) jenkins ignore_failed build_items w = SUCCESS \<Longrightarrow>
   poll_loop jenkins ignore_failed build_items w
     = Some (verdict_after (Suc n) jenkins ignore_failed build_items w,
             poll_ticks (Suc n) jenkins build_items w)"
proof (induction n arbitrary: build_items w)
  case 0
  then show ?case
    by (subst poll_loop.simps) (simp add: verdict_after_def Let_def)
next
  case (Suc n)
  let ?r = "poll_items jenkins build_items w"
  have shift: "verdict_after (Suc k) jenkins ignore_failed (fst ?r) (snd ?r)
      = verdict_after (Suc (Suc k)) jenkins ignore_failed build_items w" for k
    by (simp add: verdict_after_def)
  from Suc.prems(1) have first: "verdict_after (Suc 0) jenkins ignore_failed build_items w \<noteq> FAILED
      \<and> verdict_after (Suc 0) jenkins ignore_failed build_items w \<noteq> SUCCESS"
    by blast
  have "\<forall>k < n. verdict_after (Suc k) jenkins ignore_failed (fst ?r) (snd ?r) \<noteq> FAILED
      \<and> verdict_after (Suc k) jenkins ignore_failed (fst ?r) (snd ?r) \<noteq> SUCCESS"
    using Suc.prems(1) unfolding shift by auto
  moreover have "verdict_after (Suc n) jenkins ignore_failed (fst ?r) (snd ?r) = FAILED
      \<or> verdict_after (Suc n) jenkins ignore_failed (fst ?r) (snd ?r) = SUCCESS"
    using Suc.prems(2) unfolding shift .
  ultimately have "poll_loop jenkins ignore_failed (fst ?r) (snd ?r)
      = Some (verdict_after (Suc n) jenkins ignore_failed (fst ?r) (snd ?r),
              poll_ticks (Suc n) jenkins (fst ?r) (snd ?r))"
    by (rule Suc.IH)
  moreover from first have "poll_loop jenkins ignore_failed build_items w
      = poll_loop jenkins ignore_failed (fst ?r) (snd ?r)"
    by (subst poll_loop.simps) (simp add: verdict_after_def Let_def)
  ultimately show ?case
    unfolding shift by simp
qed

lemma poll_loop_no_verdict:
  assumes never: "\<forall>n. verdict_after (Suc n) jenkins ignore_failed build_items w \<noteq> FAILED
                    \<and> verdict_after (Suc n) jenkins ignore_failed build_items w \<noteq> SUCCESS"
  shows "poll_loop jenkins ignore_failed build_items w = None"
proof (rule ccontr)
  assume "poll_loop jenkins ignore_failed build_items w \<noteq> None"
  then obtain res where ret: "poll_loop jenkins ignore_failed build_items w = Some res"
    by auto
  have "\<not> (\<forall>n. verdict_after (Suc n) jenkins ignore_failed build_items w \<noteq> FAILED
             \<and> verdict_after (Suc n) jenkins ignore_failed build_items w \<noteq> SUCCESS)"
  proof (rule poll_loop.raw_induct
      [where P = "\<lambda>jk ign its w res.
         \<not> (\<forall>n. verdict_after (Suc n) jk ign its w \<noteq> FAILED
                \<and> verdict_after (Suc n) jk ign its w \<noteq> SUCCESS)", OF _ ret])
    fix f :: "'a Jenkins \<Rightarrow> bool \<Rightarrow> BuildItem list \<Rightarrow> 'a world
                \<Rightarrow> (BuildStatus \<times> BuildItem list \<times> 'a world) option"
      and jk ign its w res
    assume IH: "\<And>jk ign its w res. f jk ign its w = Some res \<Longrightarrow>
        \<not> (\<forall>n. verdict_after (Suc n) jk ign its w \<noteq> FAILED
               \<and> verdict_after (Suc n) jk ign its w \<noteq> SUCCESS)"
      and eq: "(let r = poll_items jk its w;
                    phase_status = resolve_statuses (map status (fst r)) ign
                in if phase_status = FAILED \<or> phase_status = SUCCESS
                   then Some (phase_status, fst r, snd r)
                   else f jk ign (fst r) (snd r)) = Some res"
    let ?r = "poll_items jk its w"
    show "\<not> (\<forall>n. verdict_after (Suc n) jk ign its w \<noteq> FAILED
               \<and> verdict_after (Suc n) jk ign its w \<noteq> SUCCESS)"
    proof
      assume inv: "\<forall>n. verdict_after (Suc n) jk ign its w \<noteq> FAILED
               \<and> verdict_after (Suc n) jk ign its w \<noteq> SUCCESS"
      have shift: "verdict_after (Suc k) jk ign (fst ?r) (snd ?r)
          = verdict_after (Suc (Suc k)) jk ign its w" for k
        by (simp add: verdict_after_def)
      from inv have "verdict_after (Suc 0) jk ign its w \<noteq> FAILED
          \<and> verdict_after (Suc 0) jk ign its w \<noteq> SUCCESS"
        by (rule spec)
      with eq have "f jk ign (fst ?r) (snd ?r) = Some res"
        by (simp add: verdict_after_def Let_def)
      from IH [OF this] have "\<not> (\<forall>n. verdict_after (Suc (Suc n)) jk ign its w \<noteq> FAILED
               \<and> verdict_after (Suc (Suc n)) jk ign its w \<noteq> SUCCESS)"
        unfolding shift .
      with inv show False by blast
    qed
  qed
  from this never show False by (rule notE)
qed

text \<open>
  C10, as stated, fails where no tick yields a verdict: the loop has no bound, and for a
  job that the service keeps reporting as running \<open>build_phase\<close> returns nothing, neither
  \<open>FAILED\<close> nor \<open>IN_PROGRESS\<close>.
\<close>

theorem build_phase_never_ending_job:
  "build_phase [''A''] [(''A'', ''job-a'')] jk_running False ([], ()) = None"
proof -
  let ?start = "\<lparr>job_name = ''job-a'', build_num = 7, status = ''INITIATED'', stage = ''?'',
                  duration = 0\<rparr>"
  let ?run = "\<lparr>job_name = ''job-a'', build_num = 7, status = ''IN_PROGRESS'', stage = ''?'',
                duration = 2\<rparr>"
  have init: "init_build_items [''A''] [(''A'', ''job-a'')] jk_running ([], ())
      = (Inr [?start], ([GetJobInfo ''job-a''], ()))"
    by code_simp
  have submit: "submit_build_and_wait [?start] jk_running ([GetJobInfo ''job-a''], ())
      = ([GetJobInfo ''job-a'', BuildJob ''job-a''], ())"
    by code_simp
  have first: "fst (poll_items jk_running [?start] w) = [?run]" for w
    by (simp add: jk_running_def poll_item_def get_build_stage_info_def
        RETRIES_COUNT_GET_BUILD_STAGE_def numeral_eq_Suc get_build_stages_def
        update_build_item_from_stage_info_def Let_def)
  have again: "fst (poll_items jk_running [?run] w) = [?run]" for w
    by (simp add: jk_running_def poll_item_def get_build_stage_info_def
        RETRIES_COUNT_GET_BUILD_STAGE_def numeral_eq_Suc get_build_stages_def
        update_build_item_from_stage_info_def Let_def)
  have stay: "fst (poll_ticks n jk_running [?run] w) = [?run]" for n w
  proof (induction n arbitrary: w)
    case 0
    show ?case by simp
  next
    case (Suc n)
    show ?case by (simp only: poll_ticks.simps again Suc.IH)
  qed
  have ticks: "fst (poll_ticks (Suc n) jk_running [?start] w) = [?run]" for n w
    by (simp only: poll_ticks.simps first stay)
  have "resolve_statuses (map status [?run]) False = IN_PROGRESS"
    by (simp add: resolve_statuses_def)
  then have "\<forall>n. verdict_after (Suc n) jk_running False [?start]
                  ([GetJobInfo ''job-a'', BuildJob ''job-a''], ()) \<noteq> FAILED
               \<and> verdict_after (Suc n) jk_running False [?start]
                  ([GetJobInfo ''job-a'', BuildJob ''job-a''], ()) \<noteq> SUCCESS"
    unfolding verdict_after_def ticks by simp
  then have "poll_loop jk_running False [?start] ([GetJobInfo ''job-a'', BuildJob ''job-a''], ()) = None"
    by (rule poll_loop_no_verdict)
  then show ?thesis
    unfolding build_phase_def init Let_def fst_conv snd_conv sum.case submit
    by simp
qed

text \<open>
  C10, amended: \<open>build_phase\<close> never returns \<open>SUCCESS\<close>. If creating the build items raises,
  it raises. Otherwise, if some polling tick yields the verdict \<open>FAILED\<close> or \<open>SUCCESS\<close>, it
  returns at the first such tick, with the state of the service after that tick: \<open>FAILED\<close>
  if ignore-failed is false and the verdict is \<open>FAILED\<close>, and \<open>IN_PROGRESS\<close> in every other
  case, also when all jobs succeeded.
\<close>

theorem build_phase_returns_at_first_verdict:
  "(\<forall>r w'. build_phase nodes als jenkins ignore_failed w = Some (Inr r, w') \<longrightarrow> r \<noteq> SUCCESS)
   \<and> (\<forall>e w1. init_build_items nodes als jenkins w = (Inl e, w1)
         \<longrightarrow> build_phase nodes als jenkins ignore_failed w = Some (Inl e, w1))
   \<and> (\<forall>items w1 n.
         init_build_items nodes als jenkins w = (Inr items, w1)
         \<and> (\<forall>k < n.
               verdict_after (Suc k) jenkins ignore_failed items
                 (submit_build_and_wait items jenkins w1) \<noteq> FAILED
               \<and> verdict_after (Suc k) jenkins ignore_failed items
                   (submit_build_and_wait items jenkins w1) \<noteq> SUCCESS)
         \<and> (verdict_after (Suc n) jenkins ignore_failed items
               (submit_build_and_wait items jenkins w1) = FAILED
              \<or> verdict_after (Suc n) jenkins ignore_failed items
                  (submit_build_and_wait items jenkins w1) = SUCCESS)
         \<longrightarrow> build_phase nodes als jenkins ignore_failed w
               = Some (Inr (if \<not> ignore_failed
                               \<and> verdict_after (Suc n) jenkins ignore_failed items
                                     (submit_build_and_wait items jenkins w1) = FAILED
                            then FAILED else IN_PROGRESS),
                       snd (poll_ticks (Suc n) jenkins items
                              (submit_build_and_wait items jenkins w1))))"
proof (intro conjI allI impI)
  fix r w'
  assume "build_phase nodes als jenkins ignore_failed w = Some (Inr r, w')"
  then show "r \<noteq> SUCCESS"
    by (auto simp: build_phase_def Let_def split: sum.splits option.splits if_splits)
next
  fix e w1
  assume "init_build_items nodes als jenkins w = (Inl e, w1)"
  then show "build_phase nodes als jenkins ignore_failed w = Some (Inl e, w1)"
    by (simp add: build_phase_def)
next
  fix items w1 n
  let ?w2 = "submit_build_and_wait items jenkins w1"
  assume a: "init_build_items nodes als jenkins w = (Inr items, w1)
         \<and> (\<forall>k < n. verdict_after (Suc k) jenkins ignore_failed items ?w2 \<noteq> FAILED
                     \<and> verdict_after (Suc k) jenkins ignore_failed items ?w2 \<noteq> SUCCESS)
         \<and> (verdict_after (Suc n) jenkins ignore_failed items ?w2 = FAILED
              \<or> verdict_after (Suc n) jenkins ignore_failed items ?w2 = SUCCESS)"
  then have init: "init_build_items nodes als jenkins w = (Inr items, w1)"
    and before: "\<forall>k < n. verdict_after (Suc k) jenkins ignore_failed items ?w2 \<noteq> FAILED
                     \<and> verdict_after (Suc k) jenkins ignore_failed items ?w2 \<noteq> SUCCESS"
    and at_n: "verdict_after (Suc n) jenkins ignore_failed items ?w2 = FAILED
              \<or> verdict_after (Suc n) jenkins ignore_failed items ?w2 = SUCCESS"
    by simp_all
  from poll_loop_first_verdict [OF before at_n] init
  show "build_phase nodes als jenkins ignore_failed w
               = Some (Inr (if \<not> ignore_failed
                               \<and> verdict_after (Suc n) jenkins ignore_failed items ?w2 = FAILED
                            then FAILED else IN_PROGRESS),
                       snd (poll_ticks (Suc n) jenkins items ?w2))"
    by (simp add: build_phase_def)
qed

lemma init_second_tick_example:
  "init_build_items [''A''] example_aliases jk_second_tick ([], 0)
     = (Inr [item_a], ([GetJobInfo ''job-a''], 0))"
  by code_simp

lemma submit_second_tick_example:
  "submit_build_and_wait [item_a] jk_second_tick ([GetJobInfo ''job-a''], 0)
     = ([GetJobInfo ''job-a'', BuildJob ''job-a''], 0)"
  by code_simp

lemma verdicts_second_tick_example:
  "verdict_after (Suc 0) jk_second_tick False [item_a] ([GetJobInfo ''job-a'', BuildJob ''job-a''], 0)
     = IN_PROGRESS"
  "verdict_after (Suc (Suc 0)) jk_second_tick False [item_a]
      ([GetJobInfo ''job-a'', BuildJob ''job-a''], 0) = SUCCESS"
  "snd (poll_ticks (Suc (Suc 0)) jk_second_tick [item_a]
      ([GetJobInfo ''job-a'', BuildJob ''job-a''], 0))
     = ([GetJobInfo ''job-a'', BuildJob ''job-a'', GetBuildStages ''job-a'' 7,
         GetBuildStages ''job-a'' 7], 2)"
  by code_simp+

theorem build_phase_returns_at_first_verdict_witness:
  "build_phase [''A''] example_aliases jk_second_tick False ([], 0)
     = Some (Inr IN_PROGRESS,
         ([GetJobInfo ''job-a'', BuildJob ''job-a'', GetBuildStages ''job-a'' 7,
           GetBuildStages ''job-a'' 7], 2))"
proof -
  let ?w2 = "([GetJobInfo ''job-a'', BuildJob ''job-a''], 0::nat)"
  have before: "\<forall>k < Suc 0. verdict_after (Suc k) jk_second_tick False [item_a]
                    (submit_build_and_wait [item_a] jk_second_tick ([GetJobInfo ''job-a''], 0))
                  \<noteq> FAILED
                \<and> verdict_after (Suc k) jk_second_tick False [item_a]
                    (submit_build_and_wait [item_a] jk_second_tick ([GetJobInfo ''job-a''], 0))
                  \<noteq> SUCCESS"
    unfolding submit_second_tick_example by (simp add: verdicts_second_tick_example)
  have at_n: "verdict_after (Suc (Suc 0)) jk_second_tick False [item_a]
                (submit_build_and_wait [item_a] jk_second_tick ([GetJobInfo ''job-a''], 0)) = FAILED
              \<or> verdict_after (Suc (Suc 0)) jk_second_tick False [item_a]
                (submit_build_and_wait [item_a] jk_second_tick ([GetJobInfo ''job-a''], 0)) = SUCCESS"
    unfolding submit_second_tick_example by (simp add: verdicts_second_tick_example)
  note inst = build_phase_returns_at_first_verdict
    [of "[''A'']" example_aliases jk_second_tick False "([], 0)"]
  from inst [THEN conjunct2, THEN conjunct2, THEN spec, THEN spec, THEN spec, THEN mp,
      OF conjI, OF init_second_tick_example conjI, OF before at_n]
  show ?thesis
    unfolding submit_second_tick_example verdicts_second_tick_example by simp
qed

section \<open>Properties of one polling tick\<close>

lemma poll_items_append:
  "poll_items jenkins (xs @ ys) w =
     (fst (poll_items jenkins xs w) @ fst (poll_items jenkins ys (snd (poll_items jenkins xs w))),
      snd (poll_items jenkins ys (snd (poll_items jenkins xs w))))"
  by (induction xs arbitrary: w) (simp_all add: Let_def)

lemma fetch_stage_info_exhausted_log:
  "fetch_stage_info tries item jenkins w = (Inr None, w1) \<Longrightarrow>
   fst w1 = fst w @ replicate tries (GetBuildStages (job_name item) (build_num item))"
proof (induction tries arbitrary: w)
  case 0
  then show ?case by simp
next
  case (Suc tries)
  let ?r = "get_build_stages jenkins (job_name item) (build_num item) w"
  from Suc.prems have absent: "fst ?r = Inr None"
    by (auto simp: Let_def split: sum.splits option.splits)
  with Suc.prems have "fetch_stage_info tries item jenkins (snd ?r) = (Inr None, w1)"
    by (simp add: Let_def)
  then have "fst w1 = fst (snd ?r) @ replicate tries (GetBuildStages (job_name item) (build_num item))"
    by (rule Suc.IH)
  moreover have "fst (snd ?r) = fst w @ [GetBuildStages (job_name item) (build_num item)]"
    by (simp add: get_build_stages_def Let_def)
  ultimately show ?case by (simp add: replicate_app_Cons_same)
qed

text \<open>
  C6: when all attempts of the retry bound return no data for one job that is not yet
  terminal, \<open>get_build_stage_info\<close> raises \<open>IOError\<close> after exactly that many calls, the tick
  sets that record's status to \<open>FAILED\<close> and leaves its other fields, and it goes on: the
  records after it are polled from the state of the service that the failed attempts
  left. The tick itself has no error result.
\<close>

theorem retry_exhaustion_marks_failed:
  assumes running: "status item \<notin> set [''FAILED'', ''ABORTED'', ''SUCCESS'']"
    and exhausted: "fetch_stage_info RETRIES_COUNT_GET_BUILD_STAGE item jenkins
                      (snd (poll_items jenkins before w)) = (Inr None, w1)"
  shows "get_build_stage_info item jenkins (snd (poll_items jenkins before w)) = (Inl IOError, w1)
     \<and> fst w1 = fst (snd (poll_items jenkins before w))
                  @ replicate 20 (GetBuildStages (job_name item) (build_num item))
     \<and> poll_items jenkins (before @ item # rest) w
         = (fst (poll_items jenkins before w) @ item\<lparr>status := ''FAILED''\<rparr>
              # fst (poll_items jenkins rest w1),
            snd (poll_items jenkins rest w1))"
proof -
  let ?w0 = "snd (poll_items jenkins before w)"
  from exhausted have raised: "get_build_stage_info item jenkins ?w0 = (Inl IOError, w1)"
    by (simp add: get_build_stage_info_def Let_def)
  from fetch_stage_info_exhausted_log [OF exhausted]
  have log: "fst w1 = fst ?w0 @ replicate 20 (GetBuildStages (job_name item) (build_num item))"
    by (simp add: RETRIES_COUNT_GET_BUILD_STAGE_def)
  from running raised have "poll_item jenkins item ?w0 = (item\<lparr>status := ''FAILED''\<rparr>, w1)"
    by (simp add: poll_item_def Let_def)
  then have "poll_items jenkins (before @ item # rest) w
         = (fst (poll_items jenkins before w) @ item\<lparr>status := ''FAILED''\<rparr>
              # fst (poll_items jenkins rest w1),
            snd (poll_items jenkins rest w1))"
    by (simp add: poll_items_append Let_def)
  with raised log show ?thesis by simp
qed

lemma fetch_exhausted_example:
  "fetch_stage_info RETRIES_COUNT_GET_BUILD_STAGE item_a jk_absent_a
      (snd (poll_items jk_absent_a [] ([], ())))
     = (Inr None, (replicate 20 (GetBuildStages ''job-a'' 7), ()))"
  by code_simp

lemma poll_sibling_example:
  "poll_items jk_absent_a [item_b] (replicate 20 (GetBuildStages ''job-a'' 7), ())
     = ([item_b\<lparr>status := ''SUCCESS'', duration := 2\<rparr>],
        (replicate 20 (GetBuildStages ''job-a'' 7) @ [GetBuildStages ''job-b'' 7], ()))"
  by code_simp

theorem retry_exhaustion_marks_failed_witness:
  "poll_items jk_absent_a [item_a, item_b] ([], ())
     = ([item_a\<lparr>status := ''FAILED''\<rparr>, item_b\<lparr>status := ''SUCCESS'', duration := 2\<rparr>],
        (replicate 20 (GetBuildStages ''job-a'' 7) @ [GetBuildStages ''job-b'' 7], ()))
   \<and> get_build_stage_info item_a jk_absent_a ([], ())
     = (Inl IOError, (replicate 20 (GetBuildStages ''job-a'' 7), ()))"
proof -
  have running: "status item_a \<notin> set [''FAILED'', ''ABORTED'', ''SUCCESS'']"
    by (simp add: item_a_def)
  note inst = retry_exhaustion_marks_failed [OF running fetch_exhausted_example, of "[item_b]"]
  from inst [THEN conjunct2, THEN conjunct2]
  have "poll_items jk_absent_a [item_a, item_b] ([], ())
     = ([item_a\<lparr>status := ''FAILED''\<rparr>, item_b\<lparr>status := ''SUCCESS'', duration := 2\<rparr>],
        (replicate 20 (GetBuildStages ''job-a'' 7) @ [GetBuildStages ''job-b'' 7], ()))"
    by (simp only: poll_sibling_example poll_items.simps(1) append_Nil fst_conv snd_conv)
  moreover from inst [THEN conjunct1]
  have "get_build_stage_info item_a jk_absent_a ([], ())
     = (Inl IOError, (replicate 20 (GetBuildStages ''job-a'' 7), ()))"
    by (simp only: poll_items.simps(1) snd_conv)
  ultimately show ?thesis by (rule conjI)
qed

section \<open>Properties of the driver\<close>

lemma build_phase_success_example:
  "build_phase [''B''] example_aliases jk_absent_a False ([], ())
     = Some (Inr IN_PROGRESS, ([GetJobInfo ''job-b'', BuildJob ''job-b'', GetBuildStages ''job-b'' 7], ()))"
  by code_simp

lemma build_phase_failed_example:
  "build_phase [''A''] example_aliases jk_absent_a False
      ([GetJobInfo ''job-b'', BuildJob ''job-b'', GetBuildStages ''job-b'' 7], ())
     = Some (Inr FAILED,
         ([GetJobInfo ''job-b'', BuildJob ''job-b'', GetBuildStages ''job-b'' 7,
           GetJobInfo ''job-a'', BuildJob ''job-a'']
          @ replicate 20 (GetBuildStages ''job-a'' 7), ()))"
  by code_simp

lemma phases_pass_run:
  "phases_pass ps als jenkins ignore_failed w = Some w1 \<Longrightarrow>
   run_phases (ps @ qs) als jenkins ignore_failed w = run_phases qs als jenkins ignore_failed w1"
proof (induction ps arbitrary: w)
  case Nil
  then show ?case by simp
next
  case (Cons p ps)
  from Cons.prems obtain r where r: "build_phase p als jenkins ignore_failed w = Some r"
    by (cases "build_phase p als jenkins ignore_failed w") simp_all
  with Cons.prems obtain st where st: "fst r = Inr st"
    by (cases "fst r") simp_all
  with Cons.prems r have ok: "st \<noteq> FAILED"
    and rest: "phases_pass ps als jenkins ignore_failed (snd r) = Some w1"
    by (simp_all split: if_splits)
  from rest have "run_phases (ps @ qs) als jenkins ignore_failed (snd r)
      = run_phases qs als jenkins ignore_failed w1"
    by (rule Cons.IH)
  with r st ok show ?case by simp
qed

text \<open>
  C8: the driver runs the phases in their order. If the phases before \<open>p\<close> each return a
  status other than \<open>FAILED\<close> and \<open>p\<close> returns \<open>FAILED\<close>, the final status is \<open>FAILED\<close> and the
  state of the service is the one \<open>p\<close> left, whatever phases follow: none of them is run.
  If no phase returns \<open>FAILED\<close>, all are run and the final status is \<open>SUCCESS\<close>.
\<close>

theorem run_phases_stops_at_first_failed:
  "(\<forall>w1 w2. phases_pass ps als jenkins ignore_failed w = Some w1
        \<and> build_phase p als jenkins ignore_failed w1 = Some (Inr FAILED, w2)
        \<longrightarrow> run_phases (ps @ p # qs) als jenkins ignore_failed w = Some (Inr FAILED, w2))
   \<and> (\<forall>w1. phases_pass ps als jenkins ignore_failed w = Some w1
        \<longrightarrow> run_phases ps als jenkins ignore_failed w = Some (Inr SUCCESS, w1))"
proof (intro conjI allI impI)
  fix w1 w2
  assume a: "phases_pass ps als jenkins ignore_failed w = Some w1
        \<and> build_phase p als jenkins ignore_failed w1 = Some (Inr FAILED, w2)"
  then have "run_phases (ps @ p # qs) als jenkins ignore_failed w
      = run_phases (p # qs) als jenkins ignore_failed w1"
    by (intro phases_pass_run) (rule conjunct1)
  with a show "run_phases (ps @ p # qs) als jenkins ignore_failed w = Some (Inr FAILED, w2)"
    by simp
next
  fix w1
  assume "phases_pass ps als jenkins ignore_failed w = Some w1"
  from phases_pass_run [OF this, of "[]"]
  show "run_phases ps als jenkins ignore_failed w = Some (Inr SUCCESS, w1)"
    by simp
qed

theorem run_phases_stops_at_first_failed_witness:
  "run_phases [[''B''], [''A''], [''C'']] example_aliases jk_absent_a False ([], ())
     = Some (Inr FAILED,
         ([GetJobInfo ''job-b'', BuildJob ''job-b'', GetBuildStages ''job-b'' 7,
           GetJobInfo ''job-a'', BuildJob ''job-a'']
          @ replicate 20 (GetBuildStages ''job-a'' 7), ()))
   \<and> run_phases [[''B'']] example_aliases jk_absent_a False ([], ())
     = Some (Inr SUCCESS, ([GetJobInfo ''job-b'', BuildJob ''job-b'', GetBuildStages ''job-b'' 7], ()))"
proof -
  let ?w1 = "([GetJobInfo ''job-b'', BuildJob ''job-b'', GetBuildStages ''job-b'' 7], ())"
  have pass: "phases_pass [[''B'']] example_aliases jk_absent_a False ([], ()) = Some ?w1"
    by (simp add: build_phase_success_example)
  note inst = run_phases_stops_at_first_failed
    [of "[[''B'']]" example_aliases jk_absent_a False "([], ())" "[''A'']" "[[''C'']]"]
  from inst [THEN conjunct1, THEN spec, THEN spec, THEN mp, OF conjI, OF pass build_phase_failed_example]
  have "run_phases ([[''B'']] @ [''A''] # [[''C'']]) example_aliases jk_absent_a False ([], ())
     = Some (Inr FAILED,
         ([GetJobInfo ''job-b'', BuildJob ''job-b'', GetBuildStages ''job-b'' 7,
           GetJobInfo ''job-a'', BuildJob ''job-a'']
          @ replicate 20 (GetBuildStages ''job-a'' 7), ()))" .
  moreover from inst [THEN conjunct2, THEN spec, THEN mp, OF pass]
  have "run_phases [[''B'']] example_aliases jk_absent_a False ([], ())
     = Some (Inr SUCCESS, ?w1)" .
  ultimately show ?thesis by (simp only: append_Cons append_Nil simp_thms)
qed

section \<open>The store during layering\<close>

lemma map_of_update: "map_of (AList.update k v g) = (map_of g)(k \<mapsto> v)"
  by (rule update_conv')

lemma children_of_update_inbound:
  "map_of g c = Some n \<Longrightarrow> children_of (AList.update c (n\<lparr>inbound := x\<rparr>) g) = children_of g"
  by (rule ext) (simp add: children_of_def map_of_update)

lemma inbound_of_update_inbound:
  "inbound_of (AList.update c (n\<lparr>inbound := x\<rparr>) g) v = (if v = c then x else inbound_of g v)"
  by (simp add: inbound_of_def map_of_update)

lemma dom_update_present:
  "map_of g c = Some n \<Longrightarrow> dom (map_of (AList.update c n' g)) = dom (map_of g)"
  by (auto simp: map_of_update)

lemma visit_children_frame:
  "visit_children cs g nq = Inr (g', nq') \<Longrightarrow>
   children_of g' = children_of g \<and> dom (map_of g') = dom (map_of g)"
proof (induction cs arbitrary: g nq)
  case Nil
  then show ?case by simp
next
  case (Cons c cs)
  from Cons.prems obtain child where child: "map_of g c = Some child"
    by (cases "map_of g c") simp_all
  let ?g1 = "AList.update c (child\<lparr>inbound := inbound child - 1\<rparr>) g"
  let ?nq1 = "if inbound child - 1 = 0 then nq @ [c] else nq"
  from Cons.prems child have "visit_children cs ?g1 ?nq1 = Inr (g', nq')"
    by (simp add: Let_def)
  then have "children_of g' = children_of ?g1 \<and> dom (map_of g') = dom (map_of ?g1)"
    by (rule Cons.IH)
  with child show ?case
    by (simp only: children_of_update_inbound dom_update_present)
qed

lemma visit_children_counters:
  "visit_children cs g nq = Inr (g', nq') \<Longrightarrow>
   inbound_of g' v = inbound_of g v - int (count_list cs v)"
proof (induction cs arbitrary: g nq)
  case Nil
  then show ?case by simp
next
  case (Cons c cs)
  from Cons.prems obtain child where child: "map_of g c = Some child"
    by (cases "map_of g c") simp_all
  let ?g1 = "AList.update c (child\<lparr>inbound := inbound child - 1\<rparr>) g"
  let ?nq1 = "if inbound child - 1 = 0 then nq @ [c] else nq"
  from Cons.prems child have "visit_children cs ?g1 ?nq1 = Inr (g', nq')"
    by (simp add: Let_def)
  then have "inbound_of g' v = inbound_of ?g1 v - int (count_list cs v)"
    by (rule Cons.IH)
  moreover from child have "inbound_of g c = inbound child"
    by (simp add: inbound_of_def)
  ultimately show ?case
    by (simp add: inbound_of_update_inbound)
qed

lemma zeroed_compose:
  assumes "\<And>v. i1 v \<le> i v" and "\<And>v. i2 v \<le> i1 v"
  shows "zeroed i i2 = zeroed i i1 \<union> zeroed i1 i2" and "zeroed i i1 \<inter> zeroed i1 i2 = {}"
proof -
  show "zeroed i i2 = zeroed i i1 \<union> zeroed i1 i2"
  proof (rule set_eqI)
    fix v
    from assms [of v] show "v \<in> zeroed i i2 \<longleftrightarrow> v \<in> zeroed i i1 \<union> zeroed i1 i2"
      unfolding zeroed_def by auto
  qed
  show "zeroed i i1 \<inter> zeroed i1 i2 = {}"
    unfolding zeroed_def by auto
qed

lemma visit_children_queue:
  "visit_children cs g nq = Inr (g', nq') \<Longrightarrow>
   \<exists>new. nq' = nq @ new \<and> distinct new \<and> set new = zeroed (inbound_of g) (inbound_of g')"
proof (induction cs arbitrary: g nq)
  case Nil
  then show ?case by (auto simp: zeroed_def)
next
  case (Cons c cs)
  from Cons.prems obtain child where child: "map_of g c = Some child"
    by (cases "map_of g c") simp_all
  let ?g1 = "AList.update c (child\<lparr>inbound := inbound child - 1\<rparr>) g"
  let ?nq1 = "if inbound child - 1 = 0 then nq @ [c] else nq"
  let ?first = "if inbound child - 1 = 0 then [c] else []"
  from Cons.prems child have rest: "visit_children cs ?g1 ?nq1 = Inr (g', nq')"
    by (simp add: Let_def)
  from Cons.IH [OF rest] obtain new where
    new: "nq' = ?nq1 @ new" "distinct new" "set new = zeroed (inbound_of ?g1) (inbound_of g')"
    by blast
  from child have at_c: "inbound_of g c = inbound child"
    by (simp add: inbound_of_def)
  have step: "\<And>v. inbound_of ?g1 v \<le> inbound_of g v"
    using at_c by (simp add: inbound_of_update_inbound)
  have later: "\<And>v. inbound_of g' v \<le> inbound_of ?g1 v"
    using visit_children_counters [OF rest] by simp
  have first: "set ?first = zeroed (inbound_of g) (inbound_of ?g1)"
    using at_c by (auto simp: zeroed_def inbound_of_update_inbound)
  from zeroed_compose [of "inbound_of ?g1" "inbound_of g" "inbound_of g'", OF step later]
  have all: "zeroed (inbound_of g) (inbound_of g') = set ?first \<union> set new"
    and disj: "set ?first \<inter> set new = {}"
    unfolding first new(3) by simp_all
  have "nq' = nq @ (?first @ new)"
    using new(1) by simp
  moreover have "distinct (?first @ new)"
    using new(2) disj by auto
  moreover have "set (?first @ new) = zeroed (inbound_of g) (inbound_of g')"
    using all by simp
  ultimately show ?case by blast
qed

section \<open>One pass over the queue\<close>

lemma decs_Nil [simp]: "decs ch [] v = 0"
  by (simp add: decs_def)

lemma decs_Cons [simp]: "decs ch (u # q) v = count_list (ch u) v + decs ch q v"
  by (simp add: decs_def)

lemma decs_append [simp]: "decs ch (p @ q) v = decs ch p v + decs ch q v"
  by (simp add: decs_def)

lemma after_le: "after ch inb q v \<le> inb v"
  by (simp add: after_def)

lemma after_append: "after ch inb (p @ q) = after ch (after ch inb p) q"
  by (rule ext) (simp add: after_def)

lemma visit_queue_frame:
  "visit_queue vs g nq = Inr (g', nq') \<Longrightarrow>
   children_of g' = children_of g \<and> dom (map_of g') = dom (map_of g)"
proof (induction vs arbitrary: g nq)
  case Nil
  then show ?case by simp
next
  case (Cons v vs)
  from Cons.prems obtain node where node: "map_of g v = Some node"
    by (cases "map_of g v") simp_all
  with Cons.prems obtain r where r: "visit_children (children node) g nq = Inr r"
    by (cases "visit_children (children node) g nq") simp_all
  obtain g1 nq1 where r_eq: "r = (g1, nq1)"
    by (cases r)
  from r r_eq have step: "visit_children (children node) g nq = Inr (g1, nq1)"
    by simp
  from Cons.prems node step have rest: "visit_queue vs g1 nq1 = Inr (g', nq')"
    by simp
  from visit_children_frame [OF step] Cons.IH [OF rest] show ?case by simp
qed

lemma visit_queue_counters:
  "visit_queue vs g nq = Inr (g', nq') \<Longrightarrow>
   inbound_of g' = after (children_of g) (inbound_of g) vs"
proof (induction vs arbitrary: g nq)
  case Nil
  then show ?case by (simp add: after_def)
next
  case (Cons v vs)
  from Cons.prems obtain node where node: "map_of g v = Some node"
    by (cases "map_of g v") simp_all
  with Cons.prems obtain r where r: "visit_children (children node) g nq = Inr r"
    by (cases "visit_children (children node) g nq") simp_all
  obtain g1 nq1 where r_eq: "r = (g1, nq1)"
    by (cases r)
  from r r_eq have step: "visit_children (children node) g nq = Inr (g1, nq1)"
    by simp
  from Cons.prems node step have rest: "visit_queue vs g1 nq1 = Inr (g', nq')"
    by simp
  from node have ch: "children node = children_of g v"
    by (simp add: children_of_def)
  from visit_children_frame [OF step] have same: "children_of g1 = children_of g"
    by simp
  have "inbound_of g' = after (children_of g1) (inbound_of g1) vs"
    using rest by (rule Cons.IH)
  moreover have "inbound_of g1 = after (children_of g) (inbound_of g) [v]"
    using visit_children_counters [OF step] by (auto simp: after_def ch)
  ultimately show ?case
    using after_append [of "children_of g" "inbound_of g" "[v]" vs] by (simp add: same)
qed

lemma visit_queue_queue:
  "visit_queue vs g nq = Inr (g', nq') \<Longrightarrow>
   \<exists>new. nq' = nq @ new \<and> distinct new \<and> set new = zeroed (inbound_of g) (inbound_of g')"
proof (induction vs arbitrary: g nq)
  case Nil
  then show ?case by (auto simp: zeroed_def)
next
  case (Cons v vs)
  from Cons.prems obtain node where node: "map_of g v = Some node"
    by (cases "map_of g v") simp_all
  with Cons.prems obtain r where r: "visit_children (children node) g nq = Inr r"
    by (cases "visit_children (children node) g nq") simp_all
  obtain g1 nq1 where r_eq: "r = (g1, nq1)"
    by (cases r)
  from r r_eq have step: "visit_children (children node) g nq = Inr (g1, nq1)"
    by simp
  from Cons.prems node step have rest: "visit_queue vs g1 nq1 = Inr (g', nq')"
    by simp
  from visit_children_queue [OF step] obtain new1 where
    new1: "nq1 = nq @ new1" "distinct new1" "set new1 = zeroed (inbound_of g) (inbound_of g1)"
    by blast
  from Cons.IH [OF rest] obtain new2 where
    new2: "nq' = nq1 @ new2" "distinct new2" "set new2 = zeroed (inbound_of g1) (inbound_of g')"
    by blast
  have le1: "\<And>u. inbound_of g1 u \<le> inbound_of g u"
    using visit_children_counters [OF step] by simp
  have le2: "\<And>u. inbound_of g' u \<le> inbound_of g1 u"
    using visit_queue_counters [OF rest] by (simp add: after_le)
  from zeroed_compose [of "inbound_of g1" "inbound_of g" "inbound_of g'", OF le1 le2]
  have all: "zeroed (inbound_of g) (inbound_of g') = set new1 \<union> set new2"
    and disj: "set new1 \<inter> set new2 = {}"
    unfolding new1(3) new2(3) by simp_all
  have "nq' = nq @ (new1 @ new2)"
    using new1(1) new2(1) by simp
  moreover have "distinct (new1 @ new2)"
    using new1(2) new2(2) disj by simp
  moreover have "set (new1 @ new2) = zeroed (inbound_of g) (inbound_of g')"
    using all by simp
  ultimately show ?case by blast
qed

lemma topo_loop_layers:
  "topo_loop g q layers = Inr res \<Longrightarrow> q \<noteq> [] \<Longrightarrow>
   \<exists>rest. res = layers @ q # rest \<and> layered (children_of g) (inbound_of g) q rest"
proof (induction g q layers arbitrary: res rule: topo_loop.induct)
  case (1 g q layers)
  from "1.prems" obtain r where r: "visit_queue q g [] = Inr r"
    by (cases "visit_queue q g []") (simp_all add: topo_loop.simps [of g q layers])
  obtain g' nq where r_eq: "r = (g', nq)"
    by (cases r)
  from r r_eq have step: "visit_queue q g [] = Inr (g', nq)"
    by simp
  from "1.prems" step have rest: "topo_loop g' nq (layers @ [q]) = Inr res"
    by (simp add: topo_loop.simps [of g q layers])
  from visit_queue_frame [OF step] have ch: "children_of g' = children_of g"
    by simp
  from visit_queue_counters [OF step]
  have inb: "inbound_of g' = after (children_of g) (inbound_of g) q" .
  from visit_queue_queue [OF step]
  have nq: "distinct nq" "set nq = zeroed (inbound_of g) (after (children_of g) (inbound_of g) q)"
    by (auto simp: inb)
  show ?case
  proof (cases "nq = []")
    case True
    with rest have "res = layers @ [q]"
      by (simp add: topo_loop.simps [of g' "[]"])
    moreover from True nq have "layered (children_of g) (inbound_of g) q []"
      by simp
    ultimately show ?thesis by blast
  next
    case False
    from "1.IH" [OF "1.prems"(2) step [unfolded r_eq [symmetric]], unfolded r_eq fst_conv snd_conv, OF rest False]
    obtain rest' where rest': "res = (layers @ [q]) @ nq # rest'"
      and lay: "layered (children_of g') (inbound_of g') nq rest'"
      by blast
    from lay nq False have "layered (children_of g) (inbound_of g) q (nq # rest')"
      by (simp add: ch inb)
    with rest' show ?thesis by simp
  qed
qed

section \<open>Properties of a layering\<close>

lemma decs_pos: "0 < decs ch q v \<Longrightarrow> \<exists>u \<in> set q. v \<in> set (ch u)"
  by (induction q) (auto simp: count_list_pos split: if_splits)

lemma zeroed_child:
  assumes "v \<in> zeroed inb (after ch inb q)"
  shows "0 < inb v" and "after ch inb q v \<le> 0" and "\<exists>u \<in> set q. (u, v) \<in> edges ch"
proof -
  from assms show pos: "0 < inb v" and le: "after ch inb q v \<le> 0"
    by (simp_all add: zeroed_def)
  from pos le have "0 < decs ch q v"
    by (simp add: after_def)
  then show "\<exists>u \<in> set q. (u, v) \<in> edges ch"
    unfolding edges_def using decs_pos by fastforce
qed

lemma layered_distinct:
  "layered ch inb q rest \<Longrightarrow> distinct (concat rest) \<and> (\<forall>v \<in> set (concat rest). 0 < inb v)"
proof (induction rest arbitrary: inb q)
  case Nil
  then show ?case by simp
next
  case (Cons q' rest)
  from Cons.prems have q': "distinct q'" "set q' = zeroed inb (after ch inb q)"
    and lay: "layered ch (after ch inb q) q' rest"
    by simp_all
  from Cons.IH [OF lay] have d: "distinct (concat rest)"
    and pos: "\<forall>v \<in> set (concat rest). 0 < after ch inb q v"
    by simp_all
  have "set q' \<inter> set (concat rest) = {}"
  proof (rule ccontr)
    assume "set q' \<inter> set (concat rest) \<noteq> {}"
    then obtain v where "v \<in> set q'" and v: "v \<in> set (concat rest)"
      by blast
    then have "after ch inb q v \<le> 0"
      using q'(2) zeroed_child(2) by blast
    with pos v show False by fastforce
  qed
  moreover have "\<forall>v \<in> set q'. 0 < inb v"
    using q'(2) zeroed_child(1) by blast
  moreover have "\<forall>v \<in> set (concat rest). 0 < inb v"
  proof
    fix v assume "v \<in> set (concat rest)"
    with pos have "0 < after ch inb q v" by blast
    with after_le [of ch inb q v] show "0 < inb v" by linarith
  qed
  ultimately show ?case using q'(1) d by auto
qed

lemma layered_reachable:
  "layered ch inb q rest \<Longrightarrow> v \<in> set (concat rest) \<Longrightarrow> \<exists>u \<in> set q. (u, v) \<in> (edges ch)\<^sup>+"
proof (induction rest arbitrary: inb q v)
  case Nil
  then show ?case by simp
next
  case (Cons q' rest)
  from Cons.prems have q': "set q' = zeroed inb (after ch inb q)"
    and lay: "layered ch (after ch inb q) q' rest"
    by simp_all
  have from_q: "\<exists>u \<in> set q. (u, x) \<in> edges ch" if "x \<in> set q'" for x
    using that q' zeroed_child(3) by blast
  show ?case
  proof (cases "v \<in> set q'")
    case True
    from from_q [OF this] show ?thesis by blast
  next
    case False
    with Cons.prems have "v \<in> set (concat rest)" by simp
    from Cons.IH [OF lay this] obtain x where x: "x \<in> set q'" "(x, v) \<in> (edges ch)\<^sup>+"
      by blast
    from from_q [OF x(1)] obtain u where "u \<in> set q" "(u, x) \<in> edges ch"
      by blast
    with x(2) show ?thesis by (meson trancl_into_trancl2)
  qed
qed

lemma layered_emitted_counters:
  "layered ch inb q rest \<Longrightarrow> j < length rest \<Longrightarrow> v \<in> set (rest ! j) \<Longrightarrow>
   inb v \<le> int (decs ch (q @ concat (take j rest)) v)"
proof (induction rest arbitrary: inb q j)
  case Nil
  then show ?case by simp
next
  case (Cons q' rest)
  from Cons.prems have q': "set q' = zeroed inb (after ch inb q)"
    and lay: "layered ch (after ch inb q) q' rest"
    by simp_all
  show ?case
  proof (cases j)
    case 0
    with Cons.prems q' have "after ch inb q v \<le> 0"
      using zeroed_child(2) by auto
    with 0 show ?thesis by (simp add: after_def)
  next
    case (Suc k)
    with Cons.prems have "k < length rest" "v \<in> set (rest ! k)"
      by simp_all
    from Cons.IH [OF lay this]
    have "after ch inb q v \<le> int (decs ch (q' @ concat (take k rest)) v)" .
    with Suc show ?thesis by (simp add: after_def)
  qed
qed

lemma layered_pending_counters:
  "layered ch inb q rest \<Longrightarrow> v \<notin> set (concat rest) \<Longrightarrow> 0 < inb v \<Longrightarrow>
   int (decs ch (q @ concat rest) v) < inb v"
proof (induction rest arbitrary: inb q)
  case Nil
  then have "v \<notin> zeroed inb (after ch inb q)" by simp
  with Nil.prems(3) show ?case by (simp add: zeroed_def after_def)
next
  case (Cons q' rest)
  from Cons.prems have q': "set q' = zeroed inb (after ch inb q)"
    and lay: "layered ch (after ch inb q) q' rest"
    by simp_all
  from Cons.prems have "v \<notin> set q'" and rest: "v \<notin> set (concat rest)"
    by simp_all
  with q' Cons.prems(3) have "0 < after ch inb q v"
    by (simp add: zeroed_def)
  from Cons.IH [OF lay rest this]
  have "int (decs ch (q' @ concat rest) v) < after ch inb q v" .
  then show ?case by (simp add: after_def)
qed

section \<open>Properties of graph construction\<close>

lemma add_nodes_dom: "dom (map_of (add_nodes as g)) = dom (map_of g) \<union> set as"
proof (induction as arbitrary: g)
  case Nil
  then show ?case by simp
next
  case (Cons a as)
  show ?case
  proof (cases "map_of g a")
    case None
    have "dom (map_of (g @ [(a, new_node a)])) = insert a (dom (map_of g))"
      by (auto simp: dom_map_of_conv_image_fst)
    with None Cons.IH [of "g @ [(a, new_node a)]"] show ?thesis by simp
  next
    case (Some n)
    then have "a \<in> dom (map_of g)" by blast
    with Some Cons.IH [of g] show ?thesis by auto
  qed
qed

lemma add_nodes_fresh:
  "children_of (add_nodes as g) = children_of g \<and> inbound_of (add_nodes as g) = inbound_of g"
proof (induction as arbitrary: g)
  case Nil
  then show ?case by simp
next
  case (Cons a as)
  show ?case
  proof (cases "map_of g a")
    case None
    let ?g1 = "g @ [(a, new_node a)]"
    from None have "children_of ?g1 = children_of g"
      by (intro ext) (auto simp: children_of_def new_node_def map_add_def split: option.splits)
    moreover from None have "inbound_of ?g1 = inbound_of g"
      by (intro ext) (auto simp: inbound_of_def new_node_def map_add_def split: option.splits)
    ultimately show ?thesis using None Cons.IH [of ?g1] by simp
  next
    case (Some n)
    with Cons.IH [of g] show ?thesis by simp
  qed
qed

lemma add_deps_result:
  "add_deps deps g = Inr g' \<Longrightarrow>
   dom (map_of g') = dom (map_of g)
   \<and> (\<forall>e \<in> set deps. fst e \<in> dom (map_of g) \<and> snd e \<in> dom (map_of g))
   \<and> (\<forall>p. children_of g' p = children_of g p @ ch_of deps p)
   \<and> (\<forall>d. inbound_of g' d = inbound_of g d + inb_of deps d)"
proof (induction deps arbitrary: g)
  case Nil
  then show ?case by (simp add: ch_of_def inb_of_def)
next
  case (Cons dep deps)
  from Cons.prems obtain dst where dst: "map_of g (snd dep) = Some dst"
    by (cases "map_of g (snd dep)") simp_all
  let ?g1 = "AList.update (snd dep) (dst\<lparr>children := children dst @ [fst dep]\<rparr>) g"
  from Cons.prems dst obtain src where src: "map_of ?g1 (fst dep) = Some src"
    by (cases "map_of ?g1 (fst dep)") (simp_all add: Let_def)
  let ?g2 = "AList.update (fst dep) (src\<lparr>inbound := inbound src + 1\<rparr>) ?g1"
  from Cons.prems dst src have rest: "add_deps deps ?g2 = Inr g'"
    by (simp add: Let_def)
  have dom1: "dom (map_of ?g1) = dom (map_of g)"
    using dst by (rule dom_update_present)
  have dom2: "dom (map_of ?g2) = dom (map_of g)"
    using dom_update_present [OF src] dom1 by simp
  from src have src_in: "fst dep \<in> dom (map_of g)"
    using dom1 by blast
  from dst have dst_in: "snd dep \<in> dom (map_of g)"
    by blast
  have ch1: "children_of ?g1 p = (if p = snd dep then children_of g p @ [fst dep] else children_of g p)" for p
    using dst by (simp add: children_of_def map_of_update)
  have ch2: "children_of ?g2 = children_of ?g1"
    using src by (rule children_of_update_inbound)
  have inb1: "inbound_of ?g1 d = inbound_of g d" for d
    using dst by (simp add: inbound_of_def map_of_update)
  have "inbound_of ?g1 (fst dep) = inbound src"
    using src by (simp add: inbound_of_def)
  then have inb2: "inbound_of ?g2 d = (if d = fst dep then inbound_of g d + 1 else inbound_of g d)" for d
    using inb1 by (simp add: inbound_of_update_inbound)
  from Cons.IH [OF rest] have
    IH1: "dom (map_of g') = dom (map_of ?g2)"
    and IH2: "\<forall>e \<in> set deps. fst e \<in> dom (map_of ?g2) \<and> snd e \<in> dom (map_of ?g2)"
    and IH3: "\<forall>p. children_of g' p = children_of ?g2 p @ ch_of deps p"
    and IH4: "\<forall>d. inbound_of g' d = inbound_of ?g2 d + inb_of deps d"
    by simp_all
  have "dom (map_of g') = dom (map_of g)"
    using IH1 dom2 by simp
  moreover have "\<forall>e \<in> set (dep # deps). fst e \<in> dom (map_of g) \<and> snd e \<in> dom (map_of g)"
    using IH2 dom2 src_in dst_in by simp
  moreover have "\<forall>p. children_of g' p = children_of g p @ ch_of (dep # deps) p"
    using IH3 ch2 ch1 by (simp add: ch_of_def)
  moreover have "\<forall>d. inbound_of g' d = inbound_of g d + inb_of (dep # deps) d"
    using IH4 inb2 by (simp add: inb_of_def)
  ultimately show ?case by blast
qed

lemma add_deps_error: "add_deps deps g = Inl e \<Longrightarrow> e = AttributeError"
proof (induction deps arbitrary: g)
  case Nil
  then show ?case by simp
next
  case (Cons dep deps)
  then show ?case
    by (auto simp: Let_def split: option.splits)
qed

lemma add_deps_returns:
  "\<forall>e \<in> set deps. fst e \<in> dom (map_of g) \<and> snd e \<in> dom (map_of g) \<Longrightarrow>
   \<exists>g'. add_deps deps g = Inr g'"
proof (induction deps arbitrary: g)
  case Nil
  then show ?case by simp
next
  case (Cons dep deps)
  from Cons.prems obtain dst where dst: "map_of g (snd dep) = Some dst"
    by auto
  let ?g1 = "AList.update (snd dep) (dst\<lparr>children := children dst @ [fst dep]\<rparr>) g"
  have dom1: "dom (map_of ?g1) = dom (map_of g)"
    using dst by (rule dom_update_present)
  with Cons.prems obtain src where src: "map_of ?g1 (fst dep) = Some src"
    by auto
  let ?g2 = "AList.update (fst dep) (src\<lparr>inbound := inbound src + 1\<rparr>) ?g1"
  have dom2: "dom (map_of ?g2) = dom (map_of g)"
    using dom_update_present [OF src] dom1 by simp
  with Cons.prems have "\<forall>e \<in> set deps. fst e \<in> dom (map_of ?g2) \<and> snd e \<in> dom (map_of ?g2)"
    by simp
  from Cons.IH [OF this] obtain g' where "add_deps deps ?g2 = Inr g'"
    by blast
  with dst src show ?case by (simp add: Let_def)
qed

lemma build_graph_result:
  assumes "build_graph als deps = Inr g"
  shows "dom (map_of g) = fst ` set als"
    and "\<forall>e \<in> set deps. fst e \<in> fst ` set als \<and> snd e \<in> fst ` set als"
    and "children_of g = ch_of deps"
    and "inbound_of g = inb_of deps"
proof -
  let ?g0 = "add_nodes (map fst als) []"
  from assms have r: "add_deps deps ?g0 = Inr g"
    by (simp add: build_graph_def)
  have dom0: "dom (map_of ?g0) = fst ` set als"
    by (simp add: add_nodes_dom)
  have ch0: "children_of ?g0 p = []" and inb0: "inbound_of ?g0 p = 0" for p
    using add_nodes_fresh [of "map fst als" "[]"]
    by (simp_all add: children_of_def inbound_of_def)
  from add_deps_result [OF r] dom0 show "dom (map_of g) = fst ` set als"
    and "\<forall>e \<in> set deps. fst e \<in> fst ` set als \<and> snd e \<in> fst ` set als"
    by simp_all
  from add_deps_result [OF r] show "children_of g = ch_of deps"
    by (intro ext) (simp add: ch0)
  from add_deps_result [OF r] show "inbound_of g = inb_of deps"
    by (intro ext) (simp add: inb0)
qed

lemma build_graph_returns:
  "\<forall>e \<in> set deps. fst e \<in> fst ` set als \<and> snd e \<in> fst ` set als \<Longrightarrow>
   \<exists>g. build_graph als deps = Inr g"
  unfolding build_graph_def by (rule add_deps_returns) (simp add: add_nodes_dom)

lemma build_graph_raises:
  assumes "\<exists>e \<in> set deps. fst e \<notin> fst ` set als \<or> snd e \<notin> fst ` set als"
  shows "build_graph als deps = Inl AttributeError"
proof (cases "build_graph als deps")
  case (Inl e)
  then have "e = AttributeError"
    unfolding build_graph_def by (rule add_deps_error)
  with Inl show ?thesis by simp
next
  case (Inr g)
  from build_graph_result(2) [OF this] assms show ?thesis by blast
qed

section \<open>Layering returns on a built graph\<close>

lemma visit_children_returns:
  "set cs \<subseteq> dom (map_of g) \<Longrightarrow> \<exists>r. visit_children cs g nq = Inr r"
proof (induction cs arbitrary: g nq)
  case Nil
  then show ?case by simp
next
  case (Cons c cs)
  from Cons.prems obtain child where child: "map_of g c = Some child"
    by auto
  let ?g1 = "AList.update c (child\<lparr>inbound := inbound child - 1\<rparr>) g"
  from Cons.prems have "set cs \<subseteq> dom (map_of ?g1)"
    using dom_update_present [OF child] by simp
  from Cons.IH [OF this] child show ?case
    by (simp add: Let_def)
qed

lemma visit_queue_returns:
  assumes closed: "\<And>v. set (children_of g v) \<subseteq> dom (map_of g)"
  shows "set vs \<subseteq> dom (map_of g) \<Longrightarrow> \<exists>r. visit_queue vs g nq = Inr r"
  using closed
proof (induction vs arbitrary: g nq)
  case Nil
  then show ?case by simp
next
  case (Cons v vs)
  from Cons.prems(1) obtain node where node: "map_of g v = Some node"
    by auto
  then have "children node = children_of g v"
    by (simp add: children_of_def)
  with Cons.prems(2) [of v] have "set (children node) \<subseteq> dom (map_of g)"
    by simp
  from visit_children_returns [OF this] obtain r where r: "visit_children (children node) g nq = Inr r"
    by blast
  obtain g1 nq1 where r_eq: "r = (g1, nq1)"
    by (cases r)
  from r r_eq have step: "visit_children (children node) g nq = Inr (g1, nq1)"
    by simp
  from visit_children_frame [OF step] have same: "children_of g1 = children_of g"
    "dom (map_of g1) = dom (map_of g)"
    by simp_all
  from Cons.prems(1) same have "set vs \<subseteq> dom (map_of g1)"
    by simp
  moreover have "\<And>u. set (children_of g1 u) \<subseteq> dom (map_of g1)"
    using Cons.prems(2) same by simp
  ultimately obtain r' where "visit_queue vs g1 nq1 = Inr r'"
    using Cons.IH by blast
  with node step show ?case by simp
qed

lemma zeroed_in_dom: "v \<in> zeroed (inbound_of g) i \<Longrightarrow> v \<in> dom (map_of g)"
  by (auto simp: zeroed_def inbound_of_def split: option.splits)

lemma topo_loop_returns:
  "set q \<subseteq> dom (map_of g) \<Longrightarrow> (\<And>v. set (children_of g v) \<subseteq> dom (map_of g)) \<Longrightarrow>
   \<exists>res. topo_loop g q layers = Inr res"
proof (induction g q layers rule: topo_loop.induct)
  case (1 g q layers)
  show ?case
  proof (cases "q = []")
    case True
    then show ?thesis by (simp add: topo_loop.simps [of g "[]" layers])
  next
    case False
    from visit_queue_returns [OF "1.prems"(2) "1.prems"(1)]
    obtain r where r: "visit_queue q g [] = Inr r"
      by blast
    obtain g' nq where r_eq: "r = (g', nq)"
      by (cases r)
    from r r_eq have step: "visit_queue q g [] = Inr (g', nq)"
      by simp
    from visit_queue_frame [OF step] have same: "children_of g' = children_of g"
      "dom (map_of g') = dom (map_of g)"
      by simp_all
    from visit_queue_queue [OF step] have "set nq = zeroed (inbound_of g) (inbound_of g')"
      by auto
    then have "set nq \<subseteq> dom (map_of g')"
      using zeroed_in_dom same(2) by blast
    moreover have "\<And>v. set (children_of g' v) \<subseteq> dom (map_of g')"
      using "1.prems"(2) same by simp
    ultimately have "\<exists>res. topo_loop g' nq (layers @ [q]) = Inr res"
      using "1.IH" [OF False r] unfolding r_eq fst_conv snd_conv by blast
    with False step show ?thesis
      by (simp add: topo_loop.simps [of g q layers])
  qed
qed

lemma get_topo_sort_layers:
  assumes built: "build_graph als deps = Inr g" and declared: "s \<in> fst ` set als"
  shows "\<exists>rest. get_topo_sort g (graph_get g s) = Inr ([s] # rest)
           \<and> layered (ch_of deps) (inb_of deps) [s] rest"
proof -
  note facts = build_graph_result [OF built]
  from declared facts(1) have s_in: "s \<in> dom (map_of g)"
    by simp
  then have start: "graph_get g s = Some s"
    by (auto simp: graph_get_def)
  have closed: "set (children_of g v) \<subseteq> dom (map_of g)" for v
    using facts(1,2) unfolding facts(3) ch_of_def by auto
  from s_in have "set [s] \<subseteq> dom (map_of g)"
    by simp
  from topo_loop_returns [OF this closed] obtain res where res: "topo_loop g [s] [] = Inr res"
    by blast
  from topo_loop_layers [OF res] obtain rest where
    "res = [s] # rest" "layered (children_of g) (inbound_of g) [s] rest"
    by auto
  with res start facts(3,4) show ?thesis
    by (simp add: get_topo_sort_def)
qed

section \<open>Counting decrements against the dependency list\<close>

lemma edges_ch_of: "edges (ch_of deps) = succs deps"
  by (auto simp: edges_def ch_of_def succs_def) force

lemma finite_succs: "finite (succs deps)"
proof -
  have "succs deps = (\<lambda>e. (snd e, fst e)) ` set deps"
    by (auto simp: succs_def) force
  then show ?thesis by simp
qed

lemma length_filter_disj:
  "length (filter (\<lambda>x. A x \<or> B x) xs) \<le> length (filter A xs) + length (filter B xs)"
  by (induction xs) auto

lemma length_filter_disj_excl:
  "(\<And>x. \<not> (A x \<and> B x)) \<Longrightarrow>
   length (filter (\<lambda>x. A x \<or> B x) xs) = length (filter A xs) + length (filter B xs)"
  by (induction xs) auto

lemma length_filter_conj_le:
  "length (filter (\<lambda>x. A x \<and> B x) xs) \<le> length (filter A xs)"
  by (induction xs) simp_all

lemma length_filter_conj_full:
  "length (filter A xs) \<le> length (filter (\<lambda>x. A x \<and> B x) xs) \<Longrightarrow> \<forall>x \<in> set xs. A x \<longrightarrow> B x"
proof (induction xs)
  case Nil
  then show ?case by simp
next
  case (Cons y ys)
  note le = length_filter_conj_le [of A B ys]
  have here: "A y \<longrightarrow> B y"
  proof (rule ccontr)
    assume "\<not> (A y \<longrightarrow> B y)"
    then have "A y" "\<not> B y" by simp_all
    with Cons.prems have "Suc (length (filter A ys)) \<le> length (filter (\<lambda>x. A x \<and> B x) ys)"
      by simp
    with le show False by linarith
  qed
  have "length (filter A ys) \<le> length (filter (\<lambda>x. A x \<and> B x) ys)"
  proof (cases "A y")
    case True
    with here have "B y" by simp
    with True Cons.prems show ?thesis by simp
  next
    case False
    with Cons.prems show ?thesis by simp
  qed
  then have "\<forall>x \<in> set ys. A x \<longrightarrow> B x"
    by (rule Cons.IH)
  with here show ?case by simp
qed

lemma length_filter_conj_less:
  "length (filter (\<lambda>x. A x \<and> B x) xs) < length (filter A xs) \<Longrightarrow> \<exists>x \<in> set xs. A x \<and> \<not> B x"
  by (induction xs) (auto split: if_splits)

lemma count_ch_of:
  "count_list (ch_of deps u) v = length (filter (\<lambda>e. fst e = v \<and> snd e = u) deps)"
  by (induction deps) (auto simp: ch_of_def)

lemma decs_ch_of_ge:
  "length (filter (\<lambda>e. fst e = v \<and> snd e \<in> set P) deps) \<le> decs (ch_of deps) P v"
proof (induction P)
  case Nil
  then show ?case by simp
next
  case (Cons u P)
  have "length (filter (\<lambda>e. fst e = v \<and> snd e \<in> set (u # P)) deps)
      = length (filter (\<lambda>e. (fst e = v \<and> snd e = u) \<or> (fst e = v \<and> snd e \<in> set P)) deps)"
    by (rule arg_cong [where f = length], rule filter_cong) auto
  also have "\<dots> \<le> length (filter (\<lambda>e. fst e = v \<and> snd e = u) deps)
      + length (filter (\<lambda>e. fst e = v \<and> snd e \<in> set P) deps)"
    by (rule length_filter_disj)
  finally show ?case using Cons by (simp add: count_ch_of)
qed

lemma decs_ch_of_distinct:
  "distinct P \<Longrightarrow>
   decs (ch_of deps) P v = length (filter (\<lambda>e. fst e = v \<and> snd e \<in> set P) deps)"
proof (induction P)
  case Nil
  then show ?case by simp
next
  case (Cons u P)
  then have fresh: "u \<notin> set P" and IH: "decs (ch_of deps) P v
      = length (filter (\<lambda>e. fst e = v \<and> snd e \<in> set P) deps)"
    by simp_all
  have "length (filter (\<lambda>e. fst e = v \<and> snd e \<in> set (u # P)) deps)
      = length (filter (\<lambda>e. (fst e = v \<and> snd e = u) \<or> (fst e = v \<and> snd e \<in> set P)) deps)"
    by (rule arg_cong [where f = length], rule filter_cong) auto
  also have "\<dots> = length (filter (\<lambda>e. fst e = v \<and> snd e = u) deps)
      + length (filter (\<lambda>e. fst e = v \<and> snd e \<in> set P) deps)"
    using fresh by (intro length_filter_disj_excl) auto
  finally show ?case using IH by (simp add: count_ch_of)
qed

lemma emitted_prereqs:
  assumes "distinct P" and "inb_of deps v \<le> int (decs (ch_of deps) P v)"
  shows "\<forall>e \<in> set deps. fst e = v \<longrightarrow> snd e \<in> set P"
proof -
  from assms have "length (filter (\<lambda>e. fst e = v) deps)
      \<le> length (filter (\<lambda>e. fst e = v \<and> snd e \<in> set P) deps)"
    by (simp add: inb_of_def decs_ch_of_distinct)
  then show ?thesis by (rule length_filter_conj_full)
qed

lemma pending_prereq:
  assumes "int (decs (ch_of deps) P v) < inb_of deps v"
  shows "\<exists>e \<in> set deps. fst e = v \<and> snd e \<notin> set P"
proof -
  from assms have "decs (ch_of deps) P v < length (filter (\<lambda>e. fst e = v) deps)"
    by (simp add: inb_of_def)
  with decs_ch_of_ge [of v P deps]
  have "length (filter (\<lambda>e. fst e = v \<and> snd e \<in> set P) deps) < length (filter (\<lambda>e. fst e = v) deps)"
    by linarith
  then show ?thesis by (rule length_filter_conj_less)
qed

lemma phase_index_Some:
  "phase_index xss v = Some k \<Longrightarrow> k < length xss \<and> v \<in> set (xss ! k)"
proof (induction xss arbitrary: k)
  case Nil
  then show ?case by simp
next
  case (Cons p ps)
  then show ?case by (cases "v \<in> set p") auto
qed

lemma phase_index_distinct:
  "distinct (concat xss) \<Longrightarrow> k < length xss \<Longrightarrow> v \<in> set (xss ! k) \<Longrightarrow> phase_index xss v = Some k"
proof (induction xss arbitrary: k)
  case Nil
  then show ?case by simp
next
  case (Cons p ps)
  show ?case
  proof (cases k)
    case 0
    with Cons.prems show ?thesis by simp
  next
    case (Suc j)
    with Cons.prems have j: "j < length ps" "v \<in> set (ps ! j)"
      by simp_all
    then have "v \<in> set (concat ps)"
      using nth_mem [of j ps] by auto
    with Cons.prems(1) have "v \<notin> set p"
      by auto
    moreover from Cons.prems(1) have "distinct (concat ps)"
      by simp
    from Cons.IH [OF this j] have "phase_index ps v = Some j" .
    ultimately show ?thesis using Suc by simp
  qed
qed

lemma in_concat_take:
  "v \<in> set (concat (take n xss)) \<Longrightarrow> \<exists>i < n. i < length xss \<and> v \<in> set (xss ! i)"
proof -
  assume "v \<in> set (concat (take n xss))"
  then obtain ys where "ys \<in> set (take n xss)" "v \<in> set ys"
    by auto
  then obtain i where "i < length (take n xss)" "take n xss ! i = ys"
    by (auto simp: in_set_conv_nth)
  with \<open>v \<in> set ys\<close> show ?thesis
    by (intro exI [of _ i]) auto
qed

lemma in_concat_index:
  "v \<in> set (concat xss) \<Longrightarrow> \<exists>i < length xss. v \<in> set (xss ! i)"
  using in_concat_take [of v "length xss" xss] by auto

lemma distinct_concat_take: "distinct (concat xss) \<Longrightarrow> distinct (concat (take n xss))"
proof -
  assume "distinct (concat xss)"
  then have "distinct (concat (take n xss @ drop n xss))" by simp
  then show ?thesis by (simp del: append_take_drop_id)
qed

lemma count_list_distinct: "distinct xs \<Longrightarrow> count_list xs v \<le> 1"
  by (induction xs) (auto simp: count_list_0_iff)

section \<open>The layers of a built graph\<close>

lemma later_from_start:
  assumes "layered (ch_of deps) (inb_of deps) [s] rest" and "v \<in> set (concat rest)"
  shows "(s, v) \<in> (succs deps)\<^sup>+"
  using layered_reachable [OF assms] by (simp add: edges_ch_of)

lemma phases_distinct:
  assumes lay: "layered (ch_of deps) (inb_of deps) [s] rest"
    and start: "(s, s) \<notin> (succs deps)\<^sup>+"
  shows "distinct (concat ([s] # rest))"
proof -
  from layered_distinct [OF lay] have "distinct (concat rest)"
    by simp
  moreover from later_from_start [OF lay] start have "s \<notin> set (concat rest)"
    by blast
  ultimately show ?thesis by simp
qed

lemma prereq_earlier:
  assumes lay: "layered (ch_of deps) (inb_of deps) [s] rest"
    and dist: "distinct (concat ([s] # rest))"
    and v: "phase_index ([s] # rest) v = Some j" "v \<noteq> s"
    and edge: "(v, u) \<in> set deps"
  shows "\<exists>i < j. phase_index ([s] # rest) u = Some i"
proof -
  from v obtain k where j: "j = Suc k" and k: "phase_index rest v = Some k"
    by auto
  from phase_index_Some [OF k] have k_lt: "k < length rest" and v_in: "v \<in> set (rest ! k)"
    by simp_all
  let ?P = "[s] @ concat (take k rest)"
  have P: "?P = concat (take j ([s] # rest))"
    by (simp add: j)
  from layered_emitted_counters [OF lay k_lt v_in]
  have "inb_of deps v \<le> int (decs (ch_of deps) ?P v)" .
  moreover have "distinct ?P"
    unfolding P using dist by (rule distinct_concat_take)
  ultimately have all: "\<forall>e \<in> set deps. fst e = v \<longrightarrow> snd e \<in> set ?P"
    by (rule emitted_prereqs [rotated])
  from bspec [OF all edge] have "u \<in> set ?P"
    by simp
  then have "u \<in> set (concat (take j ([s] # rest)))"
    unfolding P .
  from in_concat_take [OF this]
  obtain i where i: "i < j" "i < length ([s] # rest)" "u \<in> set (([s] # rest) ! i)"
    by (elim exE conjE)
  from phase_index_distinct [OF dist i(2,3)] i(1) show ?thesis
    by blast
qed

lemma cycle_excluded:
  assumes lay: "layered (ch_of deps) (inb_of deps) [s] rest"
    and start: "(s, s) \<notin> (succs deps)\<^sup>+"
    and cyc: "(v, v) \<in> (succs deps)\<^sup>+"
  shows "v \<notin> set (concat ([s] # rest))"
proof
  let ?E = "succs deps" and ?phases = "[s] # rest"
  assume "v \<in> set (concat ?phases)"
  from in_concat_index [OF this] obtain j where j: "j < length ?phases" "v \<in> set (?phases ! j)"
    by blast
  from phases_distinct [OF lay start] have dist: "distinct (concat ?phases)" .
  from phase_index_distinct [OF dist j] have vj: "phase_index ?phases v = Some j" .
  have earlier: "(v, u) \<in> ?E\<^sup>* \<longrightarrow> (\<exists>i < j. phase_index ?phases u = Some i)"
    if "(u, v) \<in> ?E\<^sup>+" for u
    using that
  proof (induction rule: converse_trancl_induct)
    case (base u)
    show ?case
    proof
      assume "(v, u) \<in> ?E\<^sup>*"
      from cyc start have "v \<noteq> s" by auto
      moreover from base have "(v, u) \<in> set deps" by (simp add: succs_def)
      ultimately show "\<exists>i < j. phase_index ?phases u = Some i"
        using prereq_earlier [OF lay dist vj] by blast
    qed
  next
    case (step u w)
    show ?case
    proof
      assume vu: "(v, u) \<in> ?E\<^sup>*"
      with step.hyps(1) have vw: "(v, w) \<in> ?E\<^sup>*"
        by (meson rtrancl.rtrancl_into_rtrancl)
      with step.IH obtain i where i: "i < j" "phase_index ?phases w = Some i"
        by blast
      from step.hyps(2) vw have "(w, w) \<in> ?E\<^sup>+"
        by (meson trancl_rtrancl_trancl)
      with start have "w \<noteq> s" by auto
      moreover from step.hyps(1) have "(w, u) \<in> set deps" by (simp add: succs_def)
      ultimately obtain i' where "i' < i" "phase_index ?phases u = Some i'"
        using prereq_earlier [OF lay dist i(2)] by blast
      with i(1) show "\<exists>i < j. phase_index ?phases u = Some i"
        by (meson less_trans)
    qed
  qed
  from earlier [OF cyc] obtain i where "i < j" "phase_index ?phases v = Some i"
    by blast
  with vj show False by simp
qed

lemma reachable_emitted:
  assumes lay: "layered (ch_of deps) (inb_of deps) [s] rest"
    and acyc: "\<forall>x. (s, x) \<in> (succs deps)\<^sup>* \<longrightarrow> (x, x) \<notin> (succs deps)\<^sup>+"
    and closed: "\<forall>e \<in> set deps. (s, fst e) \<in> (succs deps)\<^sup>* \<and> fst e \<noteq> s
                   \<longrightarrow> (s, snd e) \<in> (succs deps)\<^sup>*"
    and reach: "(s, v) \<in> (succs deps)\<^sup>*"
  shows "v \<in> set (concat ([s] # rest))"
proof (rule ccontr)
  let ?E = "succs deps" and ?phases = "[s] # rest"
  let ?U = "{x. (s, x) \<in> ?E\<^sup>* \<and> x \<notin> set (concat ?phases)}"
  let ?R = "{(y, x). (y, x) \<in> ?E \<and> y \<in> ?U \<and> x \<in> ?U}"
  assume "v \<notin> set (concat ?phases)"
  with reach have v: "v \<in> ?U" by simp
  have pred: "\<exists>y. (y, x) \<in> ?R" if x: "x \<in> ?U" for x
  proof -
    from x have "x \<noteq> s" and rx: "(s, x) \<in> ?E\<^sup>*" and nx: "x \<notin> set (concat rest)"
      by auto
    from rtranclD [OF rx] \<open>x \<noteq> s\<close> have "(s, x) \<in> ?E\<^sup>+"
      by blast
    then obtain z where "(z, x) \<in> ?E"
      by (meson tranclE)
    then have "(x, z) \<in> set deps"
      by (simp add: succs_def)
    then have "0 < length (filter (\<lambda>e. fst e = x) deps)"
      by (force simp: filter_empty_conv)
    then have "0 < inb_of deps x"
      by (simp add: inb_of_def)
    from layered_pending_counters [OF lay nx this]
    have "int (decs (ch_of deps) ([s] @ concat rest) x) < inb_of deps x" .
    from pending_prereq [OF this] obtain e where
      e: "e \<in> set deps" "fst e = x" "snd e \<notin> set ([s] @ concat rest)"
      by blast
    from e(1,2) rx \<open>x \<noteq> s\<close> closed have "(s, snd e) \<in> ?E\<^sup>*"
      by blast
    with e(3) have "snd e \<in> ?U" by simp
    moreover from e(1,2) have "(snd e, x) \<in> ?E"
      by (auto simp: succs_def)
    ultimately show ?thesis using x by blast
  qed
  have "?R \<subseteq> ?E" by blast
  with finite_succs [of deps] have fin: "finite ?R"
    by (rule rev_finite_subset)
  have "acyclic ?R"
    unfolding acyclic_def
  proof (intro allI notI)
    fix x assume xx: "(x, x) \<in> ?R\<^sup>+"
    then obtain y where "(x, y) \<in> ?R"
      by (meson tranclD)
    then have "(s, x) \<in> ?E\<^sup>*" by simp
    moreover from xx have "(x, x) \<in> ?E\<^sup>+"
      by (rule trancl_mono) blast
    ultimately show False using acyc by blast
  qed
  with fin have "wf ?R" by (rule finite_acyclic_wf)
  from wfE_min [OF this v] obtain z where z: "z \<in> ?U" "\<And>y. (y, z) \<in> ?R \<Longrightarrow> y \<notin> ?U"
    by blast
  from pred [OF z(1)] obtain y where y: "(y, z) \<in> ?R" by blast
  then have "y \<in> ?U" by simp
  with z(2) [OF y] show False by simp
qed

lemma succs_Cons: "succs (e # deps) = insert (snd e, fst e) (succs deps)"
  by (auto simp: succs_def)

lemma succs_Nil: "succs [] = {}"
  by (simp add: succs_def)

lemma no_cycle_from_source:
  assumes "\<And>z. (z, x) \<notin> r"
  shows "(x, x) \<notin> r\<^sup>+"
proof
  assume "(x, x) \<in> r\<^sup>+"
  then obtain z where "(z, x) \<in> r"
    by (meson tranclD2)
  with assms show False by blast
qed

section \<open>Properties of the phase list\<close>

text \<open>
  C4, as stated, fails for a start node on a cycle: with \<open>A\<close> depending on \<open>B\<close> and \<open>B\<close> on \<open>A\<close>,
  the start \<open>A\<close> is in phase 0 and, its counter reaching zero after \<open>B\<close>, again in phase 2.
\<close>

theorem start_on_cycle_scheduled_twice:
  "\<exists>g. build_graph [(''A'', ''job-a''), (''B'', ''job-b'')] [(''A'', ''B''), (''B'', ''A'')] = Inr g
      \<and> get_topo_sort g (graph_get g ''A'') = Inr [[''A''], [''B''], [''A'']]
      \<and> count_list (concat [[''A''], [''B''], [''A'']]) ''A'' = 2"
proof -
  let ?g = "[(''A'', \<lparr>name = ''A'', inbound = 1, children = [''B'']\<rparr>),
      (''B'', \<lparr>name = ''B'', inbound = 1, children = [''A'']\<rparr>)]"
  have built: "build_graph [(''A'', ''job-a''), (''B'', ''job-b'')] [(''A'', ''B''), (''B'', ''A'')] = Inr ?g"
    by code_simp
  have sorted: "get_topo_sort ?g (graph_get ?g ''A'') = Inr [[''A''], [''B''], [''A'']]"
    by code_simp
  have twice: "count_list (concat [[''A''], [''B''], [''A'']]) ''A'' = 2"
    by simp
  show ?thesis
    by (rule exI [of _ ?g]) (intro conjI built sorted twice)
qed

text \<open>
  C4, amended: for every graph that \<open>build_graph\<close> returns and every declared start alias,
  \<open>get_topo_sort\<close> returns a phase list in which every node other than the start occurs at
  most once, in one phase and once in it, and the start node at most twice; if the start
  node is not on a dependency cycle, no node occurs twice.
\<close>

theorem get_topo_sort_occurrences:
  assumes built: "build_graph als deps = Inr g" and declared: "s \<in> fst ` set als"
  shows "\<exists>phases. get_topo_sort g (graph_get g s) = Inr phases
           \<and> (\<forall>v. v \<noteq> s \<longrightarrow> count_list (concat phases) v \<le> 1)
           \<and> count_list (concat phases) s \<le> 2
           \<and> ((s, s) \<notin> (succs deps)\<^sup>+ \<longrightarrow> distinct (concat phases))"
proof -
  from get_topo_sort_layers [OF built declared] obtain rest where
    res: "get_topo_sort g (graph_get g s) = Inr ([s] # rest)"
    and lay: "layered (ch_of deps) (inb_of deps) [s] rest"
    by blast
  from layered_distinct [OF lay] have "distinct (concat rest)"
    by simp
  then have once: "count_list (concat rest) v \<le> 1" for v
    by (rule count_list_distinct)
  have "\<forall>v. v \<noteq> s \<longrightarrow> count_list (concat ([s] # rest)) v \<le> 1"
    using once by simp
  moreover have "count_list (concat ([s] # rest)) s \<le> 2"
    using once [of s] by simp
  moreover have "(s, s) \<notin> (succs deps)\<^sup>+ \<longrightarrow> distinct (concat ([s] # rest))"
    using phases_distinct [OF lay] by blast
  ultimately show ?thesis using res by blast
qed

theorem get_topo_sort_occurrences_witness:
  "\<exists>phases. (\<exists>g. build_graph example_aliases [(''B'', ''A''), (''C'', ''A'')] = Inr g
                  \<and> get_topo_sort g (graph_get g ''A'') = Inr phases)
      \<and> distinct (concat phases)
      \<and> count_list (concat phases) ''B'' \<le> 1
      \<and> count_list (concat phases) ''A'' \<le> 2"
proof -
  let ?deps = "[(''B'', ''A''), (''C'', ''A'')]"
  let ?g = "[(''A'', \<lparr>name = ''A'', inbound = 0, children = [''B'', ''C'']\<rparr>),
      (''B'', \<lparr>name = ''B'', inbound = 1, children = []\<rparr>),
      (''C'', \<lparr>name = ''C'', inbound = 1, children = []\<rparr>)]"
  have built: "build_graph example_aliases ?deps = Inr ?g"
    by code_simp
  have declared: "''A'' \<in> fst ` set example_aliases"
    by (simp add: example_aliases_def)
  from get_topo_sort_occurrences [OF built declared] obtain phases where
    sorted: "get_topo_sort ?g (graph_get ?g ''A'') = Inr phases"
    and others: "\<forall>v. v \<noteq> ''A'' \<longrightarrow> count_list (concat phases) v \<le> 1"
    and start: "count_list (concat phases) ''A'' \<le> 2"
    and acyclic_start: "(''A'', ''A'') \<notin> (succs ?deps)\<^sup>+ \<longrightarrow> distinct (concat phases)"
    by (elim exE conjE)
  have "(''A'', ''A'') \<notin> (succs ?deps)\<^sup>+"
    by (rule no_cycle_from_source) (auto simp: succs_def)
  with acyclic_start have dist: "distinct (concat phases)"
    by (rule mp)
  have "''B'' \<noteq> ''A''" by simp
  with others have b: "count_list (concat phases) ''B'' \<le> 1"
    by (elim allE impE)
  from built sorted have "\<exists>g. build_graph example_aliases ?deps = Inr g
      \<and> get_topo_sort g (graph_get g ''A'') = Inr phases"
    by (intro exI [of _ ?g] conjI)
  with dist b start show ?thesis
    by (intro exI [of _ phases] conjI)
qed

text \<open>
  C3, as stated, fails for a cycle through the start node: with \<open>B\<close> depending on \<open>A\<close>, \<open>A\<close> on
  \<open>C\<close> and \<open>C\<close> on \<open>B\<close>, all three nodes of the cycle are in the phase list.
\<close>

theorem cycle_through_start_scheduled:
  "\<exists>g. build_graph [(''A'', ''job-a''), (''B'', ''job-b''), (''C'', ''job-c'')]
            [(''B'', ''A''), (''A'', ''C''), (''C'', ''B'')] = Inr g
      \<and> get_topo_sort g (graph_get g ''A'') = Inr [[''A''], [''B''], [''C''], [''A'']]
      \<and> (''B'', ''B'') \<in> (succs [(''B'', ''A''), (''A'', ''C''), (''C'', ''B'')])\<^sup>+
      \<and> ''B'' \<in> set (concat [[''A''], [''B''], [''C''], [''A'']])"
proof -
  let ?deps = "[(''B'', ''A''), (''A'', ''C''), (''C'', ''B'')]"
  let ?g = "[(''A'', \<lparr>name = ''A'', inbound = 1, children = [''B'']\<rparr>),
      (''B'', \<lparr>name = ''B'', inbound = 1, children = [''C'']\<rparr>),
      (''C'', \<lparr>name = ''C'', inbound = 1, children = [''A'']\<rparr>)]"
  have built: "build_graph [(''A'', ''job-a''), (''B'', ''job-b''), (''C'', ''job-c'')] ?deps = Inr ?g"
    by code_simp
  have sorted: "get_topo_sort ?g (graph_get ?g ''A'') = Inr [[''A''], [''B''], [''C''], [''A'']]"
    by code_simp
  have bc: "(''B'', ''C'') \<in> succs ?deps" and ca: "(''C'', ''A'') \<in> succs ?deps"
    and ab: "(''A'', ''B'') \<in> succs ?deps"
    by (simp_all add: succs_def)
  from bc ca ab have cyc: "(''B'', ''B'') \<in> (succs ?deps)\<^sup>+"
    by (meson trancl.intros)
  have sched: "''B'' \<in> set (concat [[''A''], [''B''], [''C''], [''A'']])"
    by simp
  show ?thesis
    by (rule exI [of _ ?g]) (intro conjI built sorted cyc sched)
qed

text \<open>
  C3, amended: for every graph that \<open>build_graph\<close> returns and every declared start alias,
  \<open>get_topo_sort\<close> returns a phase list (it ends and does not raise), and if the start node
  is not itself on a cycle, no node that lies on a cycle is in any phase.
\<close>

theorem get_topo_sort_terminates_without_cycles:
  assumes built: "build_graph als deps = Inr g" and declared: "s \<in> fst ` set als"
  shows "\<exists>phases. get_topo_sort g (graph_get g s) = Inr phases
           \<and> ((s, s) \<notin> (succs deps)\<^sup>+ \<longrightarrow>
                (\<forall>v. (v, v) \<in> (succs deps)\<^sup>+ \<longrightarrow> v \<notin> set (concat phases)))"
proof -
  from get_topo_sort_layers [OF built declared] obtain rest where
    res: "get_topo_sort g (graph_get g s) = Inr ([s] # rest)"
    and lay: "layered (ch_of deps) (inb_of deps) [s] rest"
    by blast
  have "(s, s) \<notin> (succs deps)\<^sup>+ \<longrightarrow>
      (\<forall>v. (v, v) \<in> (succs deps)\<^sup>+ \<longrightarrow> v \<notin> set (concat ([s] # rest)))"
    using cycle_excluded [OF lay] by blast
  with res show ?thesis by blast
qed

theorem get_topo_sort_terminates_without_cycles_witness:
  "\<exists>phases. (\<exists>g. build_graph example_aliases [(''B'', ''A''), (''B'', ''C''), (''C'', ''B'')] = Inr g
                  \<and> get_topo_sort g (graph_get g ''A'') = Inr phases)
      \<and> ''B'' \<notin> set (concat phases) \<and> ''C'' \<notin> set (concat phases)"
proof -
  let ?deps = "[(''B'', ''A''), (''B'', ''C''), (''C'', ''B'')]"
  let ?g = "[(''A'', \<lparr>name = ''A'', inbound = 0, children = [''B'']\<rparr>),
      (''B'', \<lparr>name = ''B'', inbound = 2, children = [''C'']\<rparr>),
      (''C'', \<lparr>name = ''C'', inbound = 1, children = [''B'']\<rparr>)]"
  have built: "build_graph example_aliases ?deps = Inr ?g"
    by code_simp
  have declared: "''A'' \<in> fst ` set example_aliases"
    by (simp add: example_aliases_def)
  from get_topo_sort_terminates_without_cycles [OF built declared] obtain phases where
    sorted: "get_topo_sort ?g (graph_get ?g ''A'') = Inr phases"
    and excl: "(''A'', ''A'') \<notin> (succs ?deps)\<^sup>+ \<longrightarrow>
        (\<forall>v. (v, v) \<in> (succs ?deps)\<^sup>+ \<longrightarrow> v \<notin> set (concat phases))"
    by (elim exE conjE)
  have "(''A'', ''A'') \<notin> (succs ?deps)\<^sup>+"
    by (rule no_cycle_from_source) (auto simp: succs_def)
  with excl have cyc: "\<forall>v. (v, v) \<in> (succs ?deps)\<^sup>+ \<longrightarrow> v \<notin> set (concat phases)"
    by (rule mp)
  have bc: "(''B'', ''C'') \<in> succs ?deps" and cb: "(''C'', ''B'') \<in> succs ?deps"
    by (simp_all add: succs_def)
  from bc cb have "(''B'', ''B'') \<in> (succs ?deps)\<^sup>+"
    by (meson trancl.intros)
  with cyc have b: "''B'' \<notin> set (concat phases)"
    by (elim allE impE)
  from cb bc have "(''C'', ''C'') \<in> (succs ?deps)\<^sup>+"
    by (meson trancl.intros)
  with cyc have c: "''C'' \<notin> set (concat phases)"
    by (elim allE impE)
  from built sorted have "\<exists>g. build_graph example_aliases ?deps = Inr g
      \<and> get_topo_sort g (graph_get g ''A'') = Inr phases"
    by (intro exI [of _ ?g] conjI)
  with b c show ?thesis
    by (intro exI [of _ phases] conjI)
qed

text \<open>
  C1, as stated, fails where a reachable alias has a prerequisite that is not reachable from
  the start: with \<open>B\<close> depending on the start \<open>A\<close> and on \<open>C\<close>, the counter of \<open>B\<close> stays at one,
  and \<open>B\<close> is in no phase although it is reachable and there is no cycle.
\<close>

theorem reachable_node_never_scheduled:
  "\<exists>g. build_graph [(''A'', ''job-a''), (''B'', ''job-b''), (''C'', ''job-c'')]
            [(''B'', ''A''), (''B'', ''C'')] = Inr g
      \<and> get_topo_sort g (graph_get g ''A'') = Inr [[''A'']]
      \<and> (''A'', ''B'') \<in> (succs [(''B'', ''A''), (''B'', ''C'')])\<^sup>*
      \<and> (\<forall>x. (x, x) \<notin> (succs [(''B'', ''A''), (''B'', ''C'')])\<^sup>+)
      \<and> ''B'' \<notin> set (concat [[''A'']])"
proof -
  let ?deps = "[(''B'', ''A''), (''B'', ''C'')]"
  let ?g = "[(''A'', \<lparr>name = ''A'', inbound = 0, children = [''B'']\<rparr>),
      (''B'', \<lparr>name = ''B'', inbound = 2, children = []\<rparr>),
      (''C'', \<lparr>name = ''C'', inbound = 0, children = [''B'']\<rparr>)]"
  have built: "build_graph [(''A'', ''job-a''), (''B'', ''job-b''), (''C'', ''job-c'')] ?deps = Inr ?g"
    by code_simp
  have sorted: "get_topo_sort ?g (graph_get ?g ''A'') = Inr [[''A'']]"
    by code_simp
  have "(''A'', ''B'') \<in> succs ?deps"
    by (simp add: succs_def)
  then have reach: "(''A'', ''B'') \<in> (succs ?deps)\<^sup>*"
    by (rule r_into_rtrancl)
  have acyc: "\<forall>x. (x, x) \<notin> (succs ?deps)\<^sup>+"
  proof (intro allI notI)
    fix x assume xx: "(x, x) \<in> (succs ?deps)\<^sup>+"
    then obtain z where "(x, z) \<in> succs ?deps"
      by (meson tranclD)
    then have "x = ''A'' \<or> x = ''C''"
      by (auto simp: succs_def)
    moreover from xx obtain y where "(y, x) \<in> succs ?deps"
      by (meson tranclD2)
    then have "x = ''B''"
      by (auto simp: succs_def)
    ultimately show False by simp
  qed
  have out: "''B'' \<notin> set (concat [[''A'']])"
    by simp
  show ?thesis
    by (rule exI [of _ ?g]) (intro conjI built sorted reach acyc out)
qed

text \<open>
  C1, amended: for every alias list, dependency list on which \<open>build_graph\<close> returns, and
  declared start alias, if no alias reachable from the start lies on a cycle and every
  prerequisite of a reachable alias other than the start is reachable too, then the phase
  list holds every reachable alias in exactly one phase, once, and for every dependency
  pair with both aliases reachable the prerequisite's phase index is less than the
  dependent's.
\<close>

theorem get_topo_sort_layers_reachable:
  assumes built: "build_graph als deps = Inr g" and declared: "s \<in> fst ` set als"
    and acyc: "\<forall>x. (s, x) \<in> (succs deps)\<^sup>* \<longrightarrow> (x, x) \<notin> (succs deps)\<^sup>+"
    and closed: "\<forall>e \<in> set deps. (s, fst e) \<in> (succs deps)\<^sup>* \<and> fst e \<noteq> s
                   \<longrightarrow> (s, snd e) \<in> (succs deps)\<^sup>*"
  shows "\<exists>phases. get_topo_sort g (graph_get g s) = Inr phases
           \<and> distinct (concat phases)
           \<and> (\<forall>v. (s, v) \<in> (succs deps)\<^sup>* \<longrightarrow>
                 (\<exists>k. phase_index phases v = Some k) \<and> count_list (concat phases) v = 1)
           \<and> (\<forall>e \<in> set deps. (s, fst e) \<in> (succs deps)\<^sup>* \<and> (s, snd e) \<in> (succs deps)\<^sup>* \<longrightarrow>
                 (\<exists>i j. phase_index phases (snd e) = Some i
                        \<and> phase_index phases (fst e) = Some j \<and> i < j))"
proof -
  let ?E = "succs deps"
  from get_topo_sort_layers [OF built declared] obtain rest where
    res: "get_topo_sort g (graph_get g s) = Inr ([s] # rest)"
    and lay: "layered (ch_of deps) (inb_of deps) [s] rest"
    by blast
  let ?phases = "[s] # rest"
  from acyc have start: "(s, s) \<notin> ?E\<^sup>+"
    by blast
  from phases_distinct [OF lay start] have dist: "distinct (concat ?phases)" .
  have index: "\<exists>k. phase_index ?phases v = Some k" if "(s, v) \<in> ?E\<^sup>*" for v
  proof -
    from reachable_emitted [OF lay acyc closed that] have "v \<in> set (concat ?phases)" .
    from in_concat_index [OF this] obtain k where "k < length ?phases" "v \<in> set (?phases ! k)"
      by blast
    from phase_index_distinct [OF dist this] show ?thesis by blast
  qed
  have once: "count_list (concat ?phases) v = 1" if "(s, v) \<in> ?E\<^sup>*" for v
  proof -
    from reachable_emitted [OF lay acyc closed that] have "v \<in> set (concat ?phases)" .
    then have "0 < count_list (concat ?phases) v"
      by (simp only: count_list_pos)
    moreover from dist have "count_list (concat ?phases) v \<le> 1"
      by (rule count_list_distinct)
    ultimately show ?thesis by linarith
  qed
  have order: "\<exists>i j. phase_index ?phases (snd e) = Some i
      \<and> phase_index ?phases (fst e) = Some j \<and> i < j"
    if e: "e \<in> set deps" and d: "(s, fst e) \<in> ?E\<^sup>*" and p: "(s, snd e) \<in> ?E\<^sup>*" for e
  proof -
    from e have edge: "(fst e, snd e) \<in> set deps" by simp
    then have "(snd e, fst e) \<in> ?E" by (simp add: succs_def)
    with p have "(s, fst e) \<in> ?E\<^sup>+"
      by (meson rtrancl_into_trancl1)
    with start have "fst e \<noteq> s" by blast
    from index [OF d] obtain j where j: "phase_index ?phases (fst e) = Some j"
      by blast
    from prereq_earlier [OF lay dist j \<open>fst e \<noteq> s\<close> edge] j show ?thesis
      by blast
  qed
  from dist index once order res show ?thesis by blast
qed

theorem get_topo_sort_layers_reachable_witness:
  "\<exists>phases i j. (\<exists>g. build_graph
                       [(''A'', ''job-a''), (''B'', ''job-b''), (''C'', ''job-c''), (''D'', ''job-d'')]
                       [(''B'', ''A''), (''C'', ''A''), (''D'', ''B''), (''D'', ''C'')] = Inr g
                  \<and> get_topo_sort g (graph_get g ''A'') = Inr phases)
      \<and> distinct (concat phases)
      \<and> count_list (concat phases) ''D'' = 1
      \<and> phase_index phases ''B'' = Some i \<and> phase_index phases ''D'' = Some j \<and> i < j"
proof -
  let ?als = "[(''A'', ''job-a''), (''B'', ''job-b''), (''C'', ''job-c''), (''D'', ''job-d'')]"
  let ?deps = "[(''B'', ''A''), (''C'', ''A''), (''D'', ''B''), (''D'', ''C'')]"
  let ?g = "[(''A'', \<lparr>name = ''A'', inbound = 0, children = [''B'', ''C'']\<rparr>),
      (''B'', \<lparr>name = ''B'', inbound = 1, children = [''D'']\<rparr>),
      (''C'', \<lparr>name = ''C'', inbound = 1, children = [''D'']\<rparr>),
      (''D'', \<lparr>name = ''D'', inbound = 2, children = []\<rparr>)]"
  let ?E = "succs ?deps"
  have built: "build_graph ?als ?deps = Inr ?g"
    by code_simp
  have declared: "''A'' \<in> fst ` set ?als"
    by simp
  have "acyclic ?E"
    by (rule acyclicI_order
        [where f = "\<lambda>x. if x = ''A'' then 3 else if x = ''D'' then 1 else (2::nat)"])
      (auto simp: succs_def)
  then have acyc: "\<forall>x. (''A'', x) \<in> ?E\<^sup>* \<longrightarrow> (x, x) \<notin> ?E\<^sup>+"
    by (simp add: acyclic_def)
  have a: "(''A'', ''A'') \<in> ?E\<^sup>*"
    by (rule rtrancl.rtrancl_refl)
  have ab: "(''A'', ''B'') \<in> ?E" and ac: "(''A'', ''C'') \<in> ?E" and bd: "(''B'', ''D'') \<in> ?E"
    by (simp_all add: succs_def)
  from ab have b: "(''A'', ''B'') \<in> ?E\<^sup>*"
    by (rule r_into_rtrancl)
  from ac have c: "(''A'', ''C'') \<in> ?E\<^sup>*"
    by (rule r_into_rtrancl)
  from b bd have d: "(''A'', ''D'') \<in> ?E\<^sup>*"
    by (rule rtrancl.rtrancl_into_rtrancl)
  have closed: "\<forall>e \<in> set ?deps. (''A'', fst e) \<in> ?E\<^sup>* \<and> fst e \<noteq> ''A'' \<longrightarrow> (''A'', snd e) \<in> ?E\<^sup>*"
    using a b c by simp
  from get_topo_sort_layers_reachable [OF built declared acyc closed] obtain phases where
    sorted: "get_topo_sort ?g (graph_get ?g ''A'') = Inr phases"
    and dist: "distinct (concat phases)"
    and every: "\<forall>v. (''A'', v) \<in> ?E\<^sup>* \<longrightarrow>
        (\<exists>k. phase_index phases v = Some k) \<and> count_list (concat phases) v = 1"
    and order: "\<forall>e \<in> set ?deps. (''A'', fst e) \<in> ?E\<^sup>* \<and> (''A'', snd e) \<in> ?E\<^sup>* \<longrightarrow>
        (\<exists>i j. phase_index phases (snd e) = Some i \<and> phase_index phases (fst e) = Some j \<and> i < j)"
    by (elim exE conjE)
  from every d have once: "count_list (concat phases) ''D'' = 1"
    by (elim allE impE conjE)
  have "(''D'', ''B'') \<in> set ?deps"
    by simp
  from bspec [OF order this] d b obtain i j where
    ij: "phase_index phases ''B'' = Some i" "phase_index phases ''D'' = Some j" "i < j"
    by (simp only: fst_conv snd_conv) (elim impE exE conjE, simp)
  from built sorted have "\<exists>g. build_graph ?als ?deps = Inr g
      \<and> get_topo_sort g (graph_get g ''A'') = Inr phases"
    by (intro exI [of _ ?g] conjI)
  with dist once ij show ?thesis
    by (intro exI [of _ phases] exI [of _ i] exI [of _ j] conjI)
qed

section \<open>Undeclared aliases\<close>

text \<open>Without a start point \<open>main\<close> ends before the graph is built, and makes no call either.\<close>

lemma main_without_start_point:
  "main config None exclude_aliases ignore_failed jenkins w = Some (Exited, w)"
  "main config (Some []) exclude_aliases ignore_failed jenkins w = Some (Exited, w)"
  by (simp_all add: main_def)

text \<open>
  C9: when a start point is given and a dependency pair or the start point names an alias
  that the alias mapping does not have, \<open>main\<close> ends with the \<open>AttributeError\<close> of
  \<open>build_graph\<close> or \<open>get_topo_sort\<close>, and the state of the service and the log of calls are
  as they were: no call of the client has been made.
\<close>

theorem main_fails_before_any_call:
  assumes given: "sp \<noteq> []"
    and undeclared: "(\<exists>e \<in> set (cfg_dependencies config).
                        fst e \<notin> fst ` set (cfg_aliases config)
                        \<or> snd e \<notin> fst ` set (cfg_aliases config))
                     \<or> sp \<notin> fst ` set (cfg_aliases config)"
  shows "main config (Some sp) exclude_aliases ignore_failed jenkins w
           = Some (Raised AttributeError, w)"
proof (cases "\<exists>e \<in> set (cfg_dependencies config).
                fst e \<notin> fst ` set (cfg_aliases config) \<or> snd e \<notin> fst ` set (cfg_aliases config)")
  case True
  then have "build_graph (cfg_aliases config) (cfg_dependencies config) = Inl AttributeError"
    by (rule build_graph_raises)
  with given show ?thesis by (simp add: main_def)
next
  case False
  with undeclared have start: "sp \<notin> fst ` set (cfg_aliases config)"
    by blast
  from False obtain g where g: "build_graph (cfg_aliases config) (cfg_dependencies config) = Inr g"
    using build_graph_returns [of "cfg_dependencies config" "cfg_aliases config"] by blast
  from build_graph_result(1) [OF g] start have "map_of g sp = None"
    by blast
  then have "get_topo_sort g (graph_get g sp) = Inl AttributeError"
    by (simp add: graph_get_def get_topo_sort_def)
  with given g show ?thesis by (simp add: main_def)
qed

theorem main_fails_before_any_call_witness:
  "main \<lparr>cfg_aliases = example_aliases, cfg_dependencies = [(''B'', ''A''), (''C'', ''Z'')]\<rparr>
        (Some ''A'') [] False jk_success ([], ())
     = Some (Raised AttributeError, ([], ()))
   \<and> main \<lparr>cfg_aliases = example_aliases, cfg_dependencies = [(''B'', ''A'')]\<rparr>
        (Some ''Z'') [] False jk_success ([], ())
     = Some (Raised AttributeError, ([], ()))"
proof -
  have given_a: "''A'' \<noteq> []" and given_z: "''Z'' \<noteq> []"
    by simp_all
  let ?c1 = "\<lparr>cfg_aliases = example_aliases, cfg_dependencies = [(''B'', ''A''), (''C'', ''Z'')]\<rparr>"
  let ?c2 = "\<lparr>cfg_aliases = example_aliases, cfg_dependencies = [(''B'', ''A'')]\<rparr>"
  have "(\<exists>e \<in> set (cfg_dependencies ?c1).
            fst e \<notin> fst ` set (cfg_aliases ?c1) \<or> snd e \<notin> fst ` set (cfg_aliases ?c1))
         \<or> ''A'' \<notin> fst ` set (cfg_aliases ?c1)"
    by (simp add: example_aliases_def)
  from main_fails_before_any_call [OF given_a this]
  have first: "main ?c1 (Some ''A'') [] False jk_success ([], ()) = Some (Raised AttributeError, ([], ()))" .
  have "(\<exists>e \<in> set (cfg_dependencies ?c2).
            fst e \<notin> fst ` set (cfg_aliases ?c2) \<or> snd e \<notin> fst ` set (cfg_aliases ?c2))
         \<or> ''Z'' \<notin> fst ` set (cfg_aliases ?c2)"
    by (simp add: example_aliases_def)
  from main_fails_before_any_call [OF given_z this]
  have second: "main ?c2 (Some ''Z'') [] False jk_success ([], ()) = Some (Raised AttributeError, ([], ()))" .
  from first second show ?thesis by (rule conjI)
qed

end
